theory Spec2Isabelle
  imports Complex_Main "HOL-Library.Word" "HOL-Library.Multiset" "HOL-Library.Log_Nat"
begin

unbundle bit_operations_syntax

section \<open>Data model (shellsort.h)\<close>

type_synonym u64 = "64 word"
type_synonym i32 = "32 word"

text \<open>\<^verbatim>\<open>#define MAX_GAPS 64\<close>\<close>

definition MAX_GAPS :: nat where
  "MAX_GAPS = 64"

text \<open>
  \<^verbatim>\<open>gap_sequence_t\<close>: the identifier, the fixed array \<^verbatim>\<open>gaps[MAX_GAPS]\<close> (a list; the
  entries at and beyond \<open>num_gaps\<close> are whatever the buffer held) and the count of
  populated entries.
\<close>

record gap_sequence =
  name :: string
  gaps :: "u64 list"
  num_gaps :: nat

text \<open>\<^verbatim>\<open>sort_stats_t\<close>: two 64-bit counters, which wrap around as \<^verbatim>\<open>uint64_t\<close> does.\<close>

record sort_stats =
  comparisons :: u64
  moves :: u64

text \<open>The populated part of a gap sequence, \<^verbatim>\<open>gaps[0 .. num_gaps-1]\<close>.\<close>

definition populated :: "gap_sequence \<Rightarrow> u64 list" where
  "populated seq = take (num_gaps seq) (gaps seq)"

text \<open>
  What the C type guarantees of a \<^verbatim>\<open>gap_sequence_t\<close> in use: the array has \<^verbatim>\<open>MAX_GAPS\<close>
  entries and the count does not exceed it.
\<close>

definition wf_seq :: "gap_sequence \<Rightarrow> bool" where
  "wf_seq seq \<longleftrightarrow> length (gaps seq) = MAX_GAPS \<and> num_gaps seq \<le> MAX_GAPS"

section \<open>The sort engine (shellsort.c)\<close>

text \<open>
  An \<^verbatim>\<open>int32_t\<close> array is a list of 32-bit words read as two's complement by \<open>sint\<close>;
  \<^verbatim>\<open>size_t\<close> indices are natural numbers (they stay below \<open>n\<close>, so they never wrap).

  The inner \<^verbatim>\<open>while (j >= gap)\<close> loop of \<^verbatim>\<open>shellsort\<close>. With \<open>gap = 0\<close> and a larger element
  at \<open>j\<close> the C loop would never leave, so the loop is a partial function: not returning
  is \<open>None\<close>.
\<close>

partial_function (option) shellsort_while ::
  "i32 list \<Rightarrow> nat \<Rightarrow> i32 \<Rightarrow> nat \<Rightarrow> u64 \<Rightarrow> (i32 list \<times> nat \<times> u64) option"
where
  "shellsort_while arr gap temp j cmps =
     (if gap \<le> j then
        (if sint temp < sint (arr ! (j - gap))
         then shellsort_while (arr[j := arr ! (j - gap)]) gap temp (j - gap) (cmps + 1)
         else Some (arr, j, cmps + 1))
      else Some (arr, j, cmps))"

declare shellsort_while.simps [code]

text \<open>The loop \<^verbatim>\<open>for (size_t i = gap; i < n; i++)\<close>: one gapped insertion per index.\<close>

function shellsort_for_i ::
  "i32 list \<Rightarrow> nat \<Rightarrow> nat \<Rightarrow> nat \<Rightarrow> u64 \<Rightarrow> (i32 list \<times> u64) option"
where
  "shellsort_for_i arr n gap i cmps =
     (if i < n then
        (case shellsort_while arr gap (arr ! i) i cmps of
           None \<Rightarrow> None
         | Some (arr', j, cmps') \<Rightarrow> shellsort_for_i (arr'[j := arr ! i]) n gap (Suc i) cmps')
      else Some (arr, cmps))"
  by pat_completeness auto
termination
  by (relation "measure (\<lambda>(arr, n, gap, i, cmps). n - i)") auto

declare shellsort_for_i.simps [simp del]

text \<open>
  The loop \<^verbatim>\<open>for (size_t g = seq->num_gaps; g > 0; g--)\<close>: gaps are applied from the last
  populated one down to \<^verbatim>\<open>gaps[0]\<close>, and a gap \<open>\<ge> n\<close> is skipped.
\<close>

fun shellsort_for_g ::
  "i32 list \<Rightarrow> nat \<Rightarrow> gap_sequence \<Rightarrow> nat \<Rightarrow> u64 \<Rightarrow> (i32 list \<times> u64) option"
where
  "shellsort_for_g arr n seq 0 cmps = Some (arr, cmps)"
| "shellsort_for_g arr n seq (Suc g) cmps =
     (let gap = gaps seq ! g in
      if n \<le> unat gap then shellsort_for_g arr n seq g cmps
      else
        (case shellsort_for_i arr n (unat gap) (unat gap) cmps of
           None \<Rightarrow> None
         | Some (arr', cmps') \<Rightarrow> shellsort_for_g arr' n seq g cmps'))"

text \<open>
  \<^verbatim>\<open>uint64_t shellsort(int32_t *arr, size_t n, const gap_sequence_t *seq)\<close>: the array
  after the call and the returned comparison count.
\<close>

definition shellsort :: "i32 list \<Rightarrow> nat \<Rightarrow> gap_sequence \<Rightarrow> (i32 list \<times> u64) option" where
  "shellsort arr n seq = shellsort_for_g arr n seq (num_gaps seq) 0"

text \<open>The same three loops in \<^verbatim>\<open>shellsort_stats\<close>, which also counts moves.\<close>

partial_function (option) shellsort_stats_while ::
  "i32 list \<Rightarrow> nat \<Rightarrow> i32 \<Rightarrow> nat \<Rightarrow> sort_stats \<Rightarrow> (i32 list \<times> nat \<times> sort_stats) option"
where
  "shellsort_stats_while arr gap temp j stats =
     (if gap \<le> j then
        (if sint temp < sint (arr ! (j - gap))
         then shellsort_stats_while (arr[j := arr ! (j - gap)]) gap temp (j - gap)
                (stats\<lparr>comparisons := comparisons stats + 1, moves := moves stats + 1\<rparr>)
         else Some (arr, j, stats\<lparr>comparisons := comparisons stats + 1\<rparr>))
      else Some (arr, j, stats))"

declare shellsort_stats_while.simps [code]

function shellsort_stats_for_i ::
  "i32 list \<Rightarrow> nat \<Rightarrow> nat \<Rightarrow> nat \<Rightarrow> sort_stats \<Rightarrow> (i32 list \<times> sort_stats) option"
where
  "shellsort_stats_for_i arr n gap i stats =
     (if i < n then
        (case shellsort_stats_while arr gap (arr ! i) i stats of
           None \<Rightarrow> None
         | Some (arr', j, stats') \<Rightarrow>
             shellsort_stats_for_i (arr'[j := arr ! i]) n gap (Suc i)
               (stats'\<lparr>moves := moves stats' + 1\<rparr>))
      else Some (arr, stats))"
  by pat_completeness auto
termination
  by (relation "measure (\<lambda>(arr, n, gap, i, stats). n - i)") auto

declare shellsort_stats_for_i.simps [simp del]

fun shellsort_stats_for_g ::
  "i32 list \<Rightarrow> nat \<Rightarrow> gap_sequence \<Rightarrow> nat \<Rightarrow> sort_stats \<Rightarrow> (i32 list \<times> sort_stats) option"
where
  "shellsort_stats_for_g arr n seq 0 stats = Some (arr, stats)"
| "shellsort_stats_for_g arr n seq (Suc g) stats =
     (let gap = gaps seq ! g in
      if n \<le> unat gap then shellsort_stats_for_g arr n seq g stats
      else
        (case shellsort_stats_for_i arr n (unat gap) (unat gap) stats of
           None \<Rightarrow> None
         | Some (arr', stats') \<Rightarrow> shellsort_stats_for_g arr' n seq g stats'))"

definition shellsort_stats ::
  "i32 list \<Rightarrow> nat \<Rightarrow> gap_sequence \<Rightarrow> (i32 list \<times> sort_stats) option" where
  "shellsort_stats arr n seq =
     shellsort_stats_for_g arr n seq (num_gaps seq) \<lparr>comparisons = 0, moves = 0\<rparr>"

text \<open>
  A zero-initialised \<^verbatim>\<open>gap_sequence_t\<close> holding the given gaps in its first entries: the
  way the drivers and tests build a hand-written sequence.
\<close>

definition literal_sequence :: "string \<Rightarrow> u64 list \<Rightarrow> gap_sequence" where
  "literal_sequence nm gs =
     \<lparr>name = nm, gaps = gs @ replicate (MAX_GAPS - length gs) 0, num_gaps = length gs\<rparr>"

subsection \<open>The validator \<^verbatim>\<open>gap_sequence_valid\<close>\<close>

text \<open>\<^verbatim>\<open>%lu\<close> and \<^verbatim>\<open>%zu\<close>: an unsigned number in decimal.\<close>

definition digit_char :: "nat \<Rightarrow> char" where
  "digit_char d = char_of (48 + d)"

function dec :: "nat \<Rightarrow> string" where
  "dec n = (if n < 10 then [digit_char n] else dec (n div 10) @ [digit_char (n mod 10)])"
  by pat_completeness auto
termination
  by (relation "measure id") auto

declare dec.simps [simp del]

text \<open>
  \<^verbatim>\<open>if (reason) snprintf(reason, reason_len, ...)\<close>: the pointer and its capacity are one
  optional capacity (\<open>None\<close> is the \<^verbatim>\<open>NULL\<close> pointer). The result is what the buffer
  receives: nothing for \<^verbatim>\<open>NULL\<close> or capacity 0, otherwise the message cut to
  \<open>reason_len - 1\<close> characters.
\<close>

definition snprintf_reason :: "nat option \<Rightarrow> string \<Rightarrow> string option" where
  "snprintf_reason reason msg =
     (case reason of
        None \<Rightarrow> None
      | Some reason_len \<Rightarrow> if reason_len = 0 then None else Some (take (reason_len - 1) msg))"

text \<open>The loop \<^verbatim>\<open>for (size_t i = 0; i < seq->num_gaps; i++)\<close> of the validator.\<close>

function gap_sequence_valid_for :: "gap_sequence \<Rightarrow> nat option \<Rightarrow> nat \<Rightarrow> int \<times> string option" where
  "gap_sequence_valid_for seq reason i =
     (if i < num_gaps seq then
        (if gaps seq ! i = 0 then
           (0, snprintf_reason reason (''Gap '' @ dec i @ '' is zero''))
         else if 0 < i \<and> gaps seq ! i \<le> gaps seq ! (i - 1) then
           (0, snprintf_reason reason
                 (''Not strictly increasing: gaps['' @ dec i @ '']='' @ dec (unat (gaps seq ! i))
                  @ '' <= gaps['' @ dec (i - 1) @ '']='' @ dec (unat (gaps seq ! (i - 1)))))
         else gap_sequence_valid_for seq reason (Suc i))
      else (1, None))"
  by pat_completeness auto
termination
  by (relation "measure (\<lambda>(seq, reason, i). num_gaps seq - i)") auto

declare gap_sequence_valid_for.simps [simp del]

text \<open>
  \<^verbatim>\<open>int gap_sequence_valid(const gap_sequence_t *seq, char *reason, size_t reason_len)\<close>:
  the returned flag and what was written to the reason buffer.
\<close>

definition gap_sequence_valid :: "gap_sequence \<Rightarrow> nat option \<Rightarrow> int \<times> string option" where
  "gap_sequence_valid seq reason =
     (if num_gaps seq = 0 then (0, snprintf_reason reason ''Empty sequence'')
      else if gaps seq ! 0 \<noteq> 1 then
        (0, snprintf_reason reason (''First gap must be 1, got '' @ dec (unat (gaps seq ! 0))))
      else gap_sequence_valid_for seq reason 0)"

text \<open>
  The invariants of a gap sequence as the data model states them: non-empty, first gap 1,
  every gap positive, strictly increasing.
\<close>

definition seq_invariants :: "gap_sequence \<Rightarrow> bool" where
  "seq_invariants seq \<longleftrightarrow>
     0 < num_gaps seq \<and> gaps seq ! 0 = 1 \<and>
     (\<forall>i < num_gaps seq. gaps seq ! i \<noteq> 0) \<and>
     (\<forall>i < num_gaps seq. 0 < i \<longrightarrow> gaps seq ! (i - 1) < gaps seq ! i)"

text \<open>
  The four violations and the message that names each one, with the format strings of the
  source; \<open>violated\<close> says that the sequence really has the violation at that place.
\<close>

datatype violation = Empty_sequence | First_gap_not_1 | Gap_is_zero nat | Not_increasing nat

fun violated :: "gap_sequence \<Rightarrow> violation \<Rightarrow> bool" where
  "violated seq Empty_sequence \<longleftrightarrow> num_gaps seq = 0"
| "violated seq First_gap_not_1 \<longleftrightarrow> 0 < num_gaps seq \<and> gaps seq ! 0 \<noteq> 1"
| "violated seq (Gap_is_zero i) \<longleftrightarrow> i < num_gaps seq \<and> gaps seq ! i = 0"
| "violated seq (Not_increasing i) \<longleftrightarrow>
     0 < i \<and> i < num_gaps seq \<and> gaps seq ! i \<le> gaps seq ! (i - 1)"

fun violation_text :: "gap_sequence \<Rightarrow> violation \<Rightarrow> string" where
  "violation_text seq Empty_sequence = ''Empty sequence''"
| "violation_text seq First_gap_not_1 = ''First gap must be 1, got '' @ dec (unat (gaps seq ! 0))"
| "violation_text seq (Gap_is_zero i) = ''Gap '' @ dec i @ '' is zero''"
| "violation_text seq (Not_increasing i) =
     ''Not strictly increasing: gaps['' @ dec i @ '']='' @ dec (unat (gaps seq ! i))
     @ '' <= gaps['' @ dec (i - 1) @ '']='' @ dec (unat (gaps seq ! (i - 1)))"

text \<open>
  The count the specification gives for an already-sorted input of length \<open>n\<close>: one
  comparison per index and applied gap, that is \<open>n - g\<close> for every gap \<open>g < n\<close>.
\<close>

definition sorted_input_comparisons :: "nat \<Rightarrow> u64 list \<Rightarrow> nat" where
  "sorted_input_comparisons n gs = (\<Sum>g\<leftarrow>gs. if unat g < n then n - unat g else 0)"

section \<open>The deterministic RNG (rng.h)\<close>

text \<open>
  \<^verbatim>\<open>splitmix64(uint64_t *state)\<close>: the returned value and the advanced accumulator. All
  arithmetic is on 64-bit words and wraps.
\<close>

definition splitmix64 :: "u64 \<Rightarrow> u64 \<times> u64" where
  "splitmix64 state =
     (let state' = state + 0x9e3779b97f4a7c15;
          z = state';
          z = (z XOR drop_bit 30 z) * 0xbf58476d1ce4e5b9;
          z = (z XOR drop_bit 27 z) * 0x94d049bb133111eb
      in (z XOR drop_bit 31 z, state'))"

text \<open>\<^verbatim>\<open>rng_state_t\<close>: the four words \<^verbatim>\<open>s[0..3]\<close> of xoshiro256**.\<close>

record rng_state =
  s0 :: u64
  s1 :: u64
  s2 :: u64
  s3 :: u64

text \<open>\<^verbatim>\<open>rotl(x, k) = (x << k) | (x >> (64 - k))\<close>, called with \<open>k = 7\<close> and \<open>k = 45\<close> only.\<close>

definition rotl :: "u64 \<Rightarrow> nat \<Rightarrow> u64" where
  "rotl x k = push_bit k x OR drop_bit (64 - k) x"

text \<open>\<^verbatim>\<open>rng_next\<close>: the output and the state after the six updates, in the source's order.\<close>

definition rng_next :: "rng_state \<Rightarrow> u64 \<times> rng_state" where
  "rng_next rng =
     (let result = rotl (s1 rng * 5) 7 * 9;
          t = push_bit 17 (s1 rng);
          rng = rng\<lparr>s2 := s2 rng XOR s0 rng\<rparr>;
          rng = rng\<lparr>s3 := s3 rng XOR s1 rng\<rparr>;
          rng = rng\<lparr>s1 := s1 rng XOR s2 rng\<rparr>;
          rng = rng\<lparr>s0 := s0 rng XOR s3 rng\<rparr>;
          rng = rng\<lparr>s2 := s2 rng XOR t\<rparr>;
          rng = rng\<lparr>s3 := rotl (s3 rng) 45\<rparr>
      in (result, rng))"

text \<open>\<^verbatim>\<open>rng_seed\<close>: four successive \<^verbatim>\<open>splitmix64\<close> outputs.\<close>

definition rng_seed :: "u64 \<Rightarrow> rng_state" where
  "rng_seed seed =
     (let (a, seed) = splitmix64 seed;
          (b, seed) = splitmix64 seed;
          (c, seed) = splitmix64 seed;
          (d, seed) = splitmix64 seed
      in \<lparr>s0 = a, s1 = b, s2 = c, s3 = d\<rparr>)"

text \<open>
  The rejection loop \<^verbatim>\<open>for (;;)\<close> of \<^verbatim>\<open>rng_uniform\<close>. Nothing in the code bounds the number
  of rejected draws, so the loop is a partial function: not returning is \<open>None\<close>.
\<close>

partial_function (option) rng_uniform_for ::
  "rng_state \<Rightarrow> u64 \<Rightarrow> u64 \<Rightarrow> (u64 \<times> rng_state) option"
where
  "rng_uniform_for rng n threshold =
     (case rng_next rng of
        (r, rng') \<Rightarrow> if threshold \<le> r then Some (r mod n, rng') else rng_uniform_for rng' n threshold)"

declare rng_uniform_for.simps [code]

text \<open>\<^verbatim>\<open>rng_uniform\<close>: 0 for \<open>n = 0\<close>; otherwise the threshold is \<^verbatim>\<open>-n % n\<close> on \<^verbatim>\<open>uint64_t\<close>.\<close>

definition rng_uniform :: "rng_state \<Rightarrow> u64 \<Rightarrow> (u64 \<times> rng_state) option" where
  "rng_uniform rng n = (if n = 0 then Some (0, rng) else rng_uniform_for rng n ((- n) mod n))"

text \<open>
  \<^verbatim>\<open>rng_shuffle\<close>. The array is a list whose length is the number of elements the
  buffer holds; an access at an index at or beyond it is the error \<open>Out_of_bounds\<close> (with the
  index), where the C code has undefined behaviour. The loop counter \<open>i\<close> is a \<^verbatim>\<open>uint64_t\<close>;
  \<open>draws\<close> counts the calls of \<^verbatim>\<open>rng_uniform\<close> (it is not in the source). As in the source,
  the draw comes before the accesses to \<^verbatim>\<open>arr[i]\<close> and \<^verbatim>\<open>arr[j]\<close>. (\<open>Null_pointer\<close> is an
  access through \<^verbatim>\<open>NULL\<close>, which the drivers can make.)
\<close>

datatype memory_error = Out_of_bounds nat | Null_pointer

function rng_shuffle_for ::
  "rng_state \<Rightarrow> i32 list \<Rightarrow> u64 \<Rightarrow> nat \<Rightarrow> (memory_error + i32 list \<times> rng_state \<times> nat) option"
where
  "rng_shuffle_for rng arr i draws =
     (if 0 < i then
        (case rng_uniform rng (i + 1) of
           None \<Rightarrow> None
         | Some (j, rng') \<Rightarrow>
             if length arr \<le> unat i then Some (Inl (Out_of_bounds (unat i)))
             else if length arr \<le> unat j then Some (Inl (Out_of_bounds (unat j)))
             else
               (let tmp = arr ! unat i;
                    arr = arr[unat i := arr ! unat j];
                    arr = arr[unat j := tmp]
                in rng_shuffle_for rng' arr (i - 1) (Suc draws)))
      else Some (Inr (arr, rng, draws)))"
  by pat_completeness auto
termination
  by (relation "measure (\<lambda>(rng, arr, i, draws). unat i)")
     (auto simp: unat_minus_one word_greater_zero_iff unat_gt_0)

declare rng_shuffle_for.simps [simp del]

definition rng_shuffle ::
  "rng_state \<Rightarrow> i32 list \<Rightarrow> u64 \<Rightarrow> (memory_error + i32 list \<times> rng_state \<times> nat) option" where
  "rng_shuffle rng arr n = rng_shuffle_for rng arr (n - 1) 0"



text \<open>
  The state an \<^verbatim>\<open>rng_state_t\<close> holds after \<^verbatim>\<open>memset(&rng, 0, sizeof rng)\<close>, and the state
  after \<open>m\<close> calls of \<^verbatim>\<open>rng_next\<close>. Neither is in the source; they name the states the
  properties of \<^verbatim>\<open>rng_uniform\<close> speak about.
\<close>

definition zero_state :: rng_state where
  "zero_state = \<lparr>s0 = 0, s1 = 0, s2 = 0, s3 = 0\<rparr>"

primrec rng_skip :: "nat \<Rightarrow> rng_state \<Rightarrow> rng_state" where
  "rng_skip 0 rng = rng"
| "rng_skip (Suc m) rng = rng_skip m (snd (rng_next rng))"

section \<open>Permutation rows (permgen.c)\<close>








section \<open>Binary64 arithmetic (the C type \<^verbatim>\<open>double\<close>)\<close>

text \<open>
  The drivers and the generators compute in \<^verbatim>\<open>double\<close>, IEEE 754 binary64. A double is a
  finite real, an infinity or a NaN; the sign of a zero is not kept. Every operation rounds its
  own result: a product and the sum that follows it are two roundings, as the C source writes
  them, not one fused operation.
\<close>

datatype double = Finite real | PlusInf | MinusInf | NaN

text \<open>
  Rounding to nearest, ties to even, with 53 significant bits: \<open>exponent64 x\<close> is the
  exponent \<open>e\<close> with \<open>2\<^sup>e \<le> x < 2\<^sup>e\<^sup>+\<^sup>1\<close> of a positive \<open>x\<close>, not below that of the subnormal
  numbers, and the result is the nearest multiple of \<open>2\<^sup>e\<^sup>-\<^sup>5\<^sup>2\<close>. A result of magnitude \<open>2\<^sup>1\<^sup>0\<^sup>2\<^sup>4\<close>
  or more overflows to an infinity.
\<close>

definition exponent64 :: "real \<Rightarrow> int" where
  "exponent64 x =
     max (- 1022) (if 1 \<le> x then bitlen \<lfloor>x\<rfloor> - 1 else - bitlen (\<lceil>1 / x\<rceil> - 1))"

definition round_half_even :: "real \<Rightarrow> int" where
  "round_half_even q =
     (let n = \<lfloor>q\<rfloor>; r = q - of_int n
      in if r < 1 / 2 then n else if 1 / 2 < r then n + 1 else if even n then n else n + 1)"

definition rnd64 :: "real \<Rightarrow> real" where
  "rnd64 x =
     (if x = 0 then 0
      else (let u = 2 powi (exponent64 \<bar>x\<bar> - 52)
            in sgn x * of_int (round_half_even (\<bar>x\<bar> / u)) * u))"

definition to_double :: "real \<Rightarrow> double" where
  "to_double x =
     (let r = rnd64 x
      in if 2 ^ 1024 \<le> r then PlusInf else if r \<le> - (2 ^ 1024) then MinusInf else Finite r)"


text \<open>
  The operations of IEEE 754 with rounding to nearest, ties to even. On infinities and NaN
  they follow the standard; a zero divisor counts as \<open>+0\<close>.
\<close>

definition fsign :: "double \<Rightarrow> real" where
  "fsign a = (case a of Finite x \<Rightarrow> sgn x | PlusInf \<Rightarrow> 1 | MinusInf \<Rightarrow> - 1 | NaN \<Rightarrow> 0)"

definition signed_inf :: "real \<Rightarrow> double" where
  "signed_inf s = (if 0 \<le> s then PlusInf else MinusInf)"

definition fneg :: "double \<Rightarrow> double" where
  "fneg a = (case a of Finite x \<Rightarrow> Finite (- x) | PlusInf \<Rightarrow> MinusInf | MinusInf \<Rightarrow> PlusInf | NaN \<Rightarrow> NaN)"

definition fabs :: "double \<Rightarrow> double" where
  "fabs a = (case a of Finite x \<Rightarrow> Finite \<bar>x\<bar> | PlusInf \<Rightarrow> PlusInf | MinusInf \<Rightarrow> PlusInf | NaN \<Rightarrow> NaN)"

definition fadd :: "double \<Rightarrow> double \<Rightarrow> double" where
  "fadd a b =
     (if a = NaN \<or> b = NaN then NaN
      else case (a, b) of
        (Finite x, Finite y) \<Rightarrow> to_double (x + y)
      | (Finite x, _) \<Rightarrow> b
      | (_, Finite y) \<Rightarrow> a
      | _ \<Rightarrow> if a = b then a else NaN)"

definition fsub :: "double \<Rightarrow> double \<Rightarrow> double" where
  "fsub a b = fadd a (fneg b)"

definition fmul :: "double \<Rightarrow> double \<Rightarrow> double" where
  "fmul a b =
     (if a = NaN \<or> b = NaN then NaN
      else case (a, b) of
        (Finite x, Finite y) \<Rightarrow> to_double (x * y)
      | _ \<Rightarrow> if fsign a * fsign b = 0 then NaN else signed_inf (fsign a * fsign b))"

definition fdiv :: "double \<Rightarrow> double \<Rightarrow> double" where
  "fdiv a b =
     (if a = NaN \<or> b = NaN then NaN
      else case (a, b) of
        (Finite x, Finite y) \<Rightarrow>
          if y \<noteq> 0 then to_double (x / y) else if x = 0 then NaN else signed_inf x
      | (Finite x, _) \<Rightarrow> Finite 0
      | (_, Finite y) \<Rightarrow> signed_inf (fsign a * (if y < 0 then - 1 else 1))
      | _ \<Rightarrow> NaN)"

definition fsqrt :: "double \<Rightarrow> double" where
  "fsqrt a =
     (case a of
        Finite x \<Rightarrow> if x < 0 then NaN else to_double (sqrt x)
      | PlusInf \<Rightarrow> PlusInf
      | MinusInf \<Rightarrow> NaN
      | NaN \<Rightarrow> NaN)"

text \<open>\<^verbatim>\<open>floor\<close> and \<^verbatim>\<open>ceil\<close>: exact on every double.\<close>

definition ffloor :: "double \<Rightarrow> double" where
  "ffloor a = (case a of Finite x \<Rightarrow> Finite (of_int \<lfloor>x\<rfloor>) | _ \<Rightarrow> a)"

definition fceil :: "double \<Rightarrow> double" where
  "fceil a = (case a of Finite x \<Rightarrow> Finite (of_int \<lceil>x\<rceil>) | _ \<Rightarrow> a)"

text \<open>
  The conversions: \<^verbatim>\<open>(double)\<close> of a \<^verbatim>\<open>uint64_t\<close> and of an \<^verbatim>\<open>int\<close>, a decimal literal, and
  \<^verbatim>\<open>(uint64_t)\<close> of a double, which drops the fraction and is undefined (\<open>None\<close>) when the
  result is not a \<^verbatim>\<open>uint64_t\<close>.
\<close>

definition of_u64 :: "u64 \<Rightarrow> double" where
  "of_u64 w = to_double (of_nat (unat w))"

definition of_c_int :: "int \<Rightarrow> double" where
  "of_c_int k = to_double (of_int k)"

definition lit :: "real \<Rightarrow> double" where
  "lit x = to_double x"

definition to_u64 :: "double \<Rightarrow> u64 option" where
  "to_u64 a =
     (case a of
        Finite x \<Rightarrow> if - 1 < x \<and> x < 2 ^ 64 then Some (word_of_int (if 0 \<le> x then \<lfloor>x\<rfloor> else \<lceil>x\<rceil>)) else None
      | _ \<Rightarrow> None)"

text \<open>
  A function of the C mathematical library, given by what it returns on a finite argument
  (a parameter of the model) and by the standard's values at the infinities and NaN.
\<close>

definition ferf :: "(real \<Rightarrow> real) \<Rightarrow> double \<Rightarrow> double" where
  "ferf erf a =
     (case a of Finite x \<Rightarrow> Finite (erf x) | PlusInf \<Rightarrow> Finite 1 | MinusInf \<Rightarrow> Finite (- 1) | NaN \<Rightarrow> NaN)"


section \<open>Gap sequence generators (gaps_baselines.h)\<close>

text \<open>\<^verbatim>\<open>seq->gaps[seq->num_gaps++] = g\<close>. Every caller has \<open>num_gaps < MAX_GAPS\<close> at this point.\<close>

definition push_gap :: "gap_sequence \<Rightarrow> u64 \<Rightarrow> gap_sequence" where
  "push_gap seq g = seq\<lparr>gaps := (gaps seq)[num_gaps seq := g], num_gaps := Suc (num_gaps seq)\<rparr>"

text \<open>\<^verbatim>\<open>seq->gaps[seq->num_gaps - 1]\<close>, read only where \<open>num_gaps > 0\<close>.\<close>

definition last_gap :: "gap_sequence \<Rightarrow> u64" where
  "last_gap seq = gaps seq ! (num_gaps seq - 1)"

text \<open>
  The generators compute in \<^verbatim>\<open>double\<close> and call \<^verbatim>\<open>pow\<close>, \<^verbatim>\<open>ceil\<close> and \<^verbatim>\<open>floor\<close> of the C
  library. \<^verbatim>\<open>pow\<close> is not part of this code: what it returns is the parameter \<open>pow\<close> of the
  generators that call it. A conversion to \<^verbatim>\<open>uint64_t\<close> of a double outside the range is
  undefined, and so is the result of the generator: \<open>None\<close>.
\<close>

text \<open>The base tables of \<^verbatim>\<open>gaps_ciura\<close> and \<^verbatim>\<open>gaps_ciura_extended\<close>.\<close>

definition ciura_base :: "u64 list" where
  "ciura_base = [1, 4, 10, 23, 57, 132, 301, 701]"

definition ciura_ext_base :: "u64 list" where
  "ciura_ext_base = [1, 4, 10, 23, 57, 132, 301, 701, 1750]"

text \<open>
  \<^verbatim>\<open>for (i = 0; i < base_len && base[i] <= max_gap; i++) seq->gaps[seq->num_gaps++] = base[i]\<close>:
  the loop over the table stops at the first entry above \<open>max_gap\<close>.
\<close>

fun copy_base :: "u64 list \<Rightarrow> u64 \<Rightarrow> gap_sequence \<Rightarrow> gap_sequence" where
  "copy_base [] max_gap seq = seq"
| "copy_base (b # bs) max_gap seq =
     (if b \<le> max_gap then copy_base bs max_gap (push_gap seq b) else seq)"

text \<open>\<^verbatim>\<open>(uint64_t)(x * 2.25)\<close> for a \<^verbatim>\<open>uint64_t x\<close>: the product is a double.\<close>

definition times_2_25 :: "u64 \<Rightarrow> u64 option" where
  "times_2_25 x = to_u64 (fmul (of_u64 x) (lit 2.25))"

text \<open>
  \<^verbatim>\<open>while (seq->num_gaps < MAX_GAPS) { next = (uint64_t)(last * 2.25); if (next > max_gap ||
  next <= last) break; push next }\<close>. With \<open>num_gaps = 0\<close> the read of \<^verbatim>\<open>gaps[num_gaps - 1]\<close> is
  out of the array: \<open>None\<close>.
\<close>

function extend_2_25 :: "u64 \<Rightarrow> gap_sequence \<Rightarrow> gap_sequence option" where
  "extend_2_25 max_gap seq =
     (if num_gaps seq < MAX_GAPS then
        (if num_gaps seq = 0 then None
         else
           (case times_2_25 (last_gap seq) of
              None \<Rightarrow> None
            | Some next \<Rightarrow>
                if max_gap < next \<or> next \<le> last_gap seq then Some seq
                else extend_2_25 max_gap (push_gap seq next)))
      else Some seq)"
  by pat_completeness auto
termination
  by (relation "measure (\<lambda>(max_gap, seq). MAX_GAPS - num_gaps seq)")
     (auto simp: push_gap_def)

declare extend_2_25.simps [simp del]

definition gaps_ciura :: "gap_sequence \<Rightarrow> u64 \<Rightarrow> gap_sequence option" where
  "gaps_ciura seq max_gap =
     extend_2_25 max_gap
       (copy_base ciura_base max_gap (seq\<lparr>name := ''Ciura'', num_gaps := 0\<rparr>))"

definition gaps_ciura_extended :: "gap_sequence \<Rightarrow> u64 \<Rightarrow> gap_sequence option" where
  "gaps_ciura_extended seq max_gap =
     extend_2_25 max_gap
       (copy_base ciura_ext_base max_gap (seq\<lparr>name := ''Ciura-Extended'', num_gaps := 0\<rparr>))"

text \<open>
  The candidate gaps of \<^verbatim>\<open>gaps_tokuda\<close>, \<^verbatim>\<open>gaps_lee\<close> and \<^verbatim>\<open>gaps_skean\<close> for an \<^verbatim>\<open>int k\<close>:
  \<^verbatim>\<open>(uint64_t)ceil((pow(9.0, k) - pow(4.0, k)) / (5.0 * pow(4.0, k - 1)))\<close>,
  \<^verbatim>\<open>(uint64_t)floor((pow(GAMMA, k) - 1.0) / (GAMMA - 1.0))\<close> with
  \<^verbatim>\<open>GAMMA = 2.243609061420001\<close>, and \<^verbatim>\<open>(uint64_t)floor(A * pow(B, (double)k / C))\<close> with
  \<^verbatim>\<open>A = 4.0816\<close>, \<^verbatim>\<open>B = 8.5714\<close>, \<^verbatim>\<open>C = 2.2449\<close>.
\<close>

definition tokuda_gap :: "(double \<Rightarrow> double \<Rightarrow> double) \<Rightarrow> int \<Rightarrow> u64 option" where
  "tokuda_gap pow k =
     (let num = fsub (pow (lit 9.0) (of_c_int k)) (pow (lit 4.0) (of_c_int k));
          den = fmul (lit 5.0) (pow (lit 4.0) (of_c_int (k - 1)))
      in to_u64 (fceil (fdiv num den)))"

definition GAMMA :: double where
  "GAMMA = lit 2.243609061420001"

definition lee_gap :: "(double \<Rightarrow> double \<Rightarrow> double) \<Rightarrow> int \<Rightarrow> u64 option" where
  "lee_gap pow k =
     (let gap_d = fdiv (fsub (pow GAMMA (of_c_int k)) (lit 1.0)) (fsub GAMMA (lit 1.0))
      in to_u64 (ffloor gap_d))"

definition skean_gap :: "(double \<Rightarrow> double \<Rightarrow> double) \<Rightarrow> int \<Rightarrow> u64 option" where
  "skean_gap pow k =
     (let gap_d = fmul (lit 4.0816) (pow (lit 8.5714) (fdiv (of_c_int k) (lit 2.2449)))
      in to_u64 (ffloor gap_d))"

text \<open>
  The loop of \<^verbatim>\<open>gaps_tokuda\<close> and, with the other formula, of \<^verbatim>\<open>gaps_lee\<close>:
  \<^verbatim>\<open>for (int k = 1; seq->num_gaps < MAX_GAPS; k++)\<close>, where a candidate that does not
  increase is bumped to \<open>last + 1\<close> (a \<^verbatim>\<open>uint64_t\<close> addition). Every pass appends or leaves,
  so \<open>k\<close> stays below 66.
\<close>

function closed_form_for ::
  "(int \<Rightarrow> u64 option) \<Rightarrow> u64 \<Rightarrow> int \<Rightarrow> gap_sequence \<Rightarrow> gap_sequence option" where
  "closed_form_for formula max_gap k seq =
     (if num_gaps seq < MAX_GAPS then
        (case formula k of
           None \<Rightarrow> None
         | Some gap \<Rightarrow>
             if max_gap < gap then Some seq
             else if 0 < num_gaps seq \<and> gap \<le> last_gap seq then
               (let gap = last_gap seq + 1 in
                if max_gap < gap then Some seq
                else closed_form_for formula max_gap (k + 1) (push_gap seq gap))
             else closed_form_for formula max_gap (k + 1) (push_gap seq gap))
      else Some seq)"
  by pat_completeness auto
termination
  by (relation "measure (\<lambda>(formula, max_gap, k, seq). MAX_GAPS - num_gaps seq)")
     (auto simp: push_gap_def)

declare closed_form_for.simps [simp del]

definition gaps_tokuda ::
  "(double \<Rightarrow> double \<Rightarrow> double) \<Rightarrow> gap_sequence \<Rightarrow> u64 \<Rightarrow> gap_sequence option" where
  "gaps_tokuda pow seq max_gap =
     closed_form_for (tokuda_gap pow) max_gap 1 (seq\<lparr>name := ''Tokuda'', num_gaps := 0\<rparr>)"

definition gaps_lee ::
  "(double \<Rightarrow> double \<Rightarrow> double) \<Rightarrow> gap_sequence \<Rightarrow> u64 \<Rightarrow> gap_sequence option" where
  "gaps_lee pow seq max_gap =
     closed_form_for (lee_gap pow) max_gap 1 (seq\<lparr>name := ''Lee-2021'', num_gaps := 0\<rparr>)"

text \<open>
  The loop of \<^verbatim>\<open>gaps_skean\<close>: \<^verbatim>\<open>for (int k = 0; seq->num_gaps < MAX_GAPS; k++)\<close>, where a
  candidate that does not increase is skipped (\<^verbatim>\<open>continue\<close>). A skipping pass appends
  nothing, so only \<open>k\<close> bounds the loop: \<^verbatim>\<open>k++\<close> at \<^verbatim>\<open>INT_MAX\<close> is a signed overflow,
  \<open>None\<close> here.
\<close>

definition INT_MAX :: int where
  "INT_MAX = 2147483647"

function gaps_skean_for ::
  "(int \<Rightarrow> u64 option) \<Rightarrow> u64 \<Rightarrow> int \<Rightarrow> gap_sequence \<Rightarrow> gap_sequence option" where
  "gaps_skean_for formula max_gap k seq =
     (if num_gaps seq < MAX_GAPS then
        (case formula k of
           None \<Rightarrow> None
         | Some gap \<Rightarrow>
             if max_gap < gap then Some seq
             else if INT_MAX \<le> k then None
             else if gap \<le> last_gap seq then gaps_skean_for formula max_gap (k + 1) seq
             else gaps_skean_for formula max_gap (k + 1) (push_gap seq gap))
      else Some seq)"
  by pat_completeness auto
termination
  by (relation "measure (\<lambda>(formula, max_gap, k, seq). nat (INT_MAX - k))") auto

declare gaps_skean_for.simps [simp del]

definition gaps_skean ::
  "(double \<Rightarrow> double \<Rightarrow> double) \<Rightarrow> gap_sequence \<Rightarrow> u64 \<Rightarrow> gap_sequence option" where
  "gaps_skean pow seq max_gap =
     gaps_skean_for (skean_gap pow) max_gap 0
       (push_gap (seq\<lparr>name := ''Skean-2023'', num_gaps := 0\<rparr>) 1)"

text \<open>
  The loop of \<^verbatim>\<open>gaps_sedgewick86\<close>, all in \<^verbatim>\<open>uint64_t\<close>:
  \<^verbatim>\<open>gap = ((uint64_t)1 << (2 * k)) + 3 * ((uint64_t)1 << (k - 1)) + 1\<close>. A shift by 64 or more
  is undefined in C: \<open>None\<close>.
\<close>

function gaps_sedgewick86_for :: "u64 \<Rightarrow> nat \<Rightarrow> gap_sequence \<Rightarrow> gap_sequence option" where
  "gaps_sedgewick86_for max_gap k seq =
     (if num_gaps seq < MAX_GAPS then
        (if 64 \<le> 2 * k then None
         else
           (let gap = push_bit (2 * k) 1 + 3 * push_bit (k - 1) 1 + 1 in
            if max_gap < gap then Some seq
            else gaps_sedgewick86_for max_gap (k + 1) (push_gap seq gap)))
      else Some seq)"
  by pat_completeness auto
termination
  by (relation "measure (\<lambda>(max_gap, k, seq). MAX_GAPS - num_gaps seq)")
     (auto simp: push_gap_def)

declare gaps_sedgewick86_for.simps [simp del]

definition gaps_sedgewick86 :: "gap_sequence \<Rightarrow> u64 \<Rightarrow> gap_sequence option" where
  "gaps_sedgewick86 seq max_gap =
     gaps_sedgewick86_for max_gap 1 (push_gap (seq\<lparr>name := ''Sedgewick-1986'', num_gaps := 0\<rparr>) 1)"

text \<open>
  The property a generator has to establish: the invariants of the data model, with no
  gap above \<open>max_gap\<close>.
\<close>

definition valid_up_to :: "u64 \<Rightarrow> gap_sequence \<Rightarrow> bool" where
  "valid_up_to max_gap seq \<longleftrightarrow>
     wf_seq seq \<and> seq_invariants seq \<and> (\<forall>i < num_gaps seq. gaps seq ! i \<le> max_gap)"

text \<open>
  What the properties below need of \<^verbatim>\<open>pow\<close>: \<open>pow(x, 0) = 1\<close> and \<open>pow(x, 1) = x\<close> exactly,
  and, for \<open>1 \<le> x \<le> 16\<close> and \<open>0 \<le> y \<le> 64\<close>, a finite result within one percent of \<open>x\<^sup>y\<close>.
\<close>

definition pow_accurate :: "(double \<Rightarrow> double \<Rightarrow> double) \<Rightarrow> bool" where
  "pow_accurate pow \<longleftrightarrow>
     (\<forall>x. pow (Finite x) (Finite 0) = Finite 1) \<and>
     (\<forall>x. pow (Finite x) (Finite 1) = Finite x) \<and>
     (\<forall>x y. 1 \<le> x \<and> x \<le> 16 \<and> 0 \<le> y \<and> y \<le> 64 \<longrightarrow>
        (\<exists>r. pow (Finite x) (Finite y) = Finite r \<and>
             99 / 100 * x powr y \<le> r \<and> r \<le> 101 / 100 * x powr y))"

text \<open>A double that is finite and lies between two bounds.\<close>

definition finite_in :: "real \<Rightarrow> real \<Rightarrow> double \<Rightarrow> bool" where
  "finite_in lo hi d \<longleftrightarrow> (\<exists>r. d = Finite r \<and> lo \<le> r \<and> r \<le> hi)"

text \<open>A \<^verbatim>\<open>pow\<close> that rounds the real power correctly where the result is finite.\<close>

definition rounded_pow :: "double \<Rightarrow> double \<Rightarrow> double" where
  "rounded_pow a b =
     (case (a, b) of
        (Finite x, Finite y) \<Rightarrow>
          if y = 0 then Finite 1 else if y = 1 then Finite x
          else if 0 < x then to_double (x powr y) else NaN
      | _ \<Rightarrow> NaN)"

text \<open>A zero-initialised \<^verbatim>\<open>gap_sequence_t\<close> for a generator to fill.\<close>

definition zero_sequence :: gap_sequence where
  "zero_sequence = \<lparr>name = [], gaps = replicate MAX_GAPS 0, num_gaps = 0\<rparr>"

section \<open>Dataset files (permgen.c, bench.c, validate.c, full_bench.c, all_baselines_bench.c)\<close>

type_synonym byte = "8 word"

text \<open>
  A file open for reading is the list of the bytes from the current position on. The
  drivers read and write integers in the machine's byte order, least significant byte
  first on the machines they run on.
\<close>

type_synonym bytes = "byte list"

definition le_word :: "byte list \<Rightarrow> 'a::len word" where
  "le_word bs = foldr (\<lambda>b w. ucast b OR push_bit 8 w) bs 0"

definition le_bytes :: "nat \<Rightarrow> 'a::len word \<Rightarrow> byte list" where
  "le_bytes n w = map (\<lambda>i. ucast (drop_bit (8 * i) w)) [0 ..< n]"

text \<open>\<^verbatim>\<open>#define MAGIC 0x5045524D47454E31ULL\<close>, the same in every driver.\<close>

definition MAGIC :: u64 where
  "MAGIC = 0x5045524D47454E31"

text \<open>
  The bytes \<^verbatim>\<open>generate_permutations\<close> writes: the four header words, then the rows.
\<close>

definition dataset_file :: "u64 \<Rightarrow> u64 \<Rightarrow> u64 \<Rightarrow> i32 list \<Rightarrow> bytes" where
  "dataset_file n t seed rows =
     le_bytes 8 MAGIC @ le_bytes 8 n @ le_bytes 8 t @ le_bytes 8 seed @ concat (map (le_bytes 4) rows)"

text \<open>
  \<^verbatim>\<open>fread(&x, sizeof(uint64_t), 1, f)\<close> on a variable holding \<open>old\<close>: whether the call returned
  1, what \<open>x\<close> holds afterwards, and the rest of the file. When fewer than 8 bytes are left
  the call returns 0 and the bytes that were read overwrite the low bytes of \<open>x\<close>.
\<close>

definition fread_u64 :: "u64 \<Rightarrow> bytes \<Rightarrow> bool \<times> u64 \<times> bytes" where
  "fread_u64 old f =
     (if 8 \<le> length f then (True, le_word (take 8 f), drop 8 f)
      else (False, le_word (f @ drop (length f) (le_bytes 8 old)), []))"

text \<open>
  \<^verbatim>\<open>fread(buf, sizeof(int32_t), cnt, f)\<close>: the bytes the call stores at \<open>buf\<close> (the complete
  items and the bytes of a last, partial one); it returns the number of complete items.
  \<open>i32_items\<close> reads a buffer of bytes as the \<^verbatim>\<open>int32_t\<close> items it holds.
\<close>

definition fread_i32 :: "nat \<Rightarrow> bytes \<Rightarrow> bytes" where
  "fread_i32 cnt f = take (4 * cnt) f"

definition i32_items :: "bytes \<Rightarrow> i32 list" where
  "i32_items buf = map (\<lambda>i. le_word (take 4 (drop (4 * i) buf))) [0 ..< length buf div 4]"

text \<open>
  \<^verbatim>\<open>snprintf(path, sizeof(path), "%s/perm_%lu.bin", dir, (unsigned long)N)\<close> with
  \<^verbatim>\<open>char path[1024]\<close>.
\<close>

definition dataset_path :: "string \<Rightarrow> u64 \<Rightarrow> string" where
  "dataset_path dir n = take 1023 (dir @ ''/perm_'' @ dec (unat n) @ ''.bin'')"

text \<open>
  \<^verbatim>\<open>perm_dataset_t\<close>. \<open>ds_data\<close> is the buffer behind the \<^verbatim>\<open>data\<close> pointer, \<open>None\<close> for a pointer
  that is \<^verbatim>\<open>NULL\<close> or freed. (Only bench.c has the \<^verbatim>\<open>master_seed\<close> field; the other drivers
  read the seed into a local.)
\<close>

record perm_dataset =
  ds_N :: u64
  ds_trials :: u64
  ds_master_seed :: u64
  ds_data :: "i32 list option"

text \<open>
  The environment of a loader: \<open>fs\<close> gives the content of the file at a path (\<open>None\<close> when
  \<^verbatim>\<open>fopen\<close> fails), \<open>malloc_ok\<close> says whether an allocation of that many bytes succeeds,
  \<open>uninit\<close> is what an uninitialised \<^verbatim>\<open>uint64_t\<close> local holds, and \<open>heap\<close> gives the bytes that
  fresh heap memory holds.

  \<^verbatim>\<open>load_dataset\<close> of bench.c: every \<^verbatim>\<open>fread\<close> is checked, and the stored \<open>N\<close> must be the one
  asked for. The result is the returned \<^verbatim>\<open>int\<close> and the dataset structure after the call.
  The byte count \<^verbatim>\<open>total * sizeof(int32_t)\<close> wraps as a \<^verbatim>\<open>size_t\<close>; a read that stores more
  bytes than were allocated is \<open>Out_of_bounds\<close>, with the index of the first item outside.
\<close>

definition bench_load_dataset ::
  "(string \<Rightarrow> bytes option) \<Rightarrow> (nat \<Rightarrow> bool) \<Rightarrow> u64 \<Rightarrow> (nat \<Rightarrow> byte) \<Rightarrow> string \<Rightarrow> u64
     \<Rightarrow> perm_dataset \<Rightarrow> memory_error + int \<times> perm_dataset" where
  "bench_load_dataset fs malloc_ok uninit heap perms_dir N ds =
     (case fs (dataset_path perms_dir N) of
        None \<Rightarrow> Inr (- 1, ds)
      | Some f \<Rightarrow>
          (case fread_u64 uninit f of
             (ok, magic, f) \<Rightarrow>
               if \<not> ok then Inr (- 1, ds)
               else if magic \<noteq> MAGIC then Inr (- 1, ds)
               else
                 (case fread_u64 (ds_N ds) f of
                    (ok, n, f) \<Rightarrow>
                      (let ds = ds\<lparr>ds_N := n\<rparr> in
                       if \<not> ok then Inr (- 1, ds)
                       else
                         (case fread_u64 (ds_trials ds) f of
                            (ok, t, f) \<Rightarrow>
                              (let ds = ds\<lparr>ds_trials := t\<rparr> in
                               if \<not> ok then Inr (- 1, ds)
                               else
                                 (case fread_u64 (ds_master_seed ds) f of
                                    (ok, seed, f) \<Rightarrow>
                                      (let ds = ds\<lparr>ds_master_seed := seed\<rparr> in
                                       if \<not> ok then Inr (- 1, ds)
                                       else if ds_N ds \<noteq> N then Inr (- 1, ds)
                                       else
                                         (let total = ds_trials ds * ds_N ds;
                                              size = unat (total * 4)
                                          in if \<not> malloc_ok size
                                             then Inr (- 1, ds\<lparr>ds_data := None\<rparr>)
                                             else
                                               (let stored = fread_i32 (unat total) f
                                                in if size < length stored
                                                   then Inl (Out_of_bounds (size div 4))
                                                   else if length stored div 4 \<noteq> unat total
                                                   then Inr (- 1, ds\<lparr>ds_data := None\<rparr>)
                                                   else Inr (0, ds\<lparr>ds_data := Some (i32_items
                                                     (stored @ map heap [length stored ..< size]))\<rparr>)))))))))))"

text \<open>
  \<^verbatim>\<open>load_dataset\<close> of validate.c: no \<^verbatim>\<open>fread\<close> is checked, and the stored \<open>N\<close> is not compared
  with the one asked for.
\<close>

definition validate_load_dataset ::
  "(string \<Rightarrow> bytes option) \<Rightarrow> (nat \<Rightarrow> bool) \<Rightarrow> u64 \<Rightarrow> (nat \<Rightarrow> byte) \<Rightarrow> string \<Rightarrow> u64
     \<Rightarrow> perm_dataset \<Rightarrow> memory_error + int \<times> perm_dataset" where
  "validate_load_dataset fs malloc_ok uninit heap dir N ds =
     (case fs (dataset_path dir N) of
        None \<Rightarrow> Inr (- 1, ds)
      | Some f \<Rightarrow>
          (case fread_u64 uninit f of
             (ok, magic, f) \<Rightarrow>
               if magic \<noteq> MAGIC then Inr (- 1, ds)
               else
                 (case fread_u64 (ds_N ds) f of
                    (ok, n, f) \<Rightarrow>
                      (let ds = ds\<lparr>ds_N := n\<rparr> in
                       case fread_u64 (ds_trials ds) f of
                         (ok, t, f) \<Rightarrow>
                           (let ds = ds\<lparr>ds_trials := t\<rparr> in
                            case fread_u64 uninit f of
                              (ok, seed, f) \<Rightarrow>
                                (let total = ds_trials ds * ds_N ds;
                                     size = unat (total * 4)
                                 in if \<not> malloc_ok size
                                    then Inr (- 1, ds\<lparr>ds_data := None\<rparr>)
                                    else
                                      (let stored = fread_i32 (unat total) f
                                       in if size < length stored
                                          then Inl (Out_of_bounds (size div 4))
                                          else Inr (0, ds\<lparr>ds_data := Some (i32_items
                                            (stored @ map heap [length stored ..< size]))\<rparr>))))))))"

text \<open>\<^verbatim>\<open>load_dataset\<close> of full_bench.c, the same text as in validate.c.\<close>

definition full_bench_load_dataset ::
  "(string \<Rightarrow> bytes option) \<Rightarrow> (nat \<Rightarrow> bool) \<Rightarrow> u64 \<Rightarrow> (nat \<Rightarrow> byte) \<Rightarrow> string \<Rightarrow> u64
     \<Rightarrow> perm_dataset \<Rightarrow> memory_error + int \<times> perm_dataset" where
  "full_bench_load_dataset fs malloc_ok uninit heap dir N ds =
     (case fs (dataset_path dir N) of
        None \<Rightarrow> Inr (- 1, ds)
      | Some f \<Rightarrow>
          (case fread_u64 uninit f of
             (ok, magic, f) \<Rightarrow>
               if magic \<noteq> MAGIC then Inr (- 1, ds)
               else
                 (case fread_u64 (ds_N ds) f of
                    (ok, n, f) \<Rightarrow>
                      (let ds = ds\<lparr>ds_N := n\<rparr> in
                       case fread_u64 (ds_trials ds) f of
                         (ok, t, f) \<Rightarrow>
                           (let ds = ds\<lparr>ds_trials := t\<rparr> in
                            case fread_u64 uninit f of
                              (ok, seed, f) \<Rightarrow>
                                (let total = ds_trials ds * ds_N ds;
                                     size = unat (total * 4)
                                 in if \<not> malloc_ok size
                                    then Inr (- 1, ds\<lparr>ds_data := None\<rparr>)
                                    else
                                      (let stored = fread_i32 (unat total) f
                                       in if size < length stored
                                          then Inl (Out_of_bounds (size div 4))
                                          else Inr (0, ds\<lparr>ds_data := Some (i32_items
                                            (stored @ map heap [length stored ..< size]))\<rparr>))))))))"

text \<open>
  \<^verbatim>\<open>load_dataset\<close> of all_baselines_bench.c: as in validate.c, and the result of \<^verbatim>\<open>malloc\<close>
  is not checked either, so a failed allocation followed by a read that stores at least
  one byte writes through \<^verbatim>\<open>NULL\<close>.
\<close>

definition all_baselines_load_dataset ::
  "(string \<Rightarrow> bytes option) \<Rightarrow> (nat \<Rightarrow> bool) \<Rightarrow> u64 \<Rightarrow> (nat \<Rightarrow> byte) \<Rightarrow> string \<Rightarrow> u64
     \<Rightarrow> perm_dataset \<Rightarrow> memory_error + int \<times> perm_dataset" where
  "all_baselines_load_dataset fs malloc_ok uninit heap dir N ds =
     (case fs (dataset_path dir N) of
        None \<Rightarrow> Inr (- 1, ds)
      | Some f \<Rightarrow>
          (case fread_u64 uninit f of
             (ok, magic, f) \<Rightarrow>
               if magic \<noteq> MAGIC then Inr (- 1, ds)
               else
                 (case fread_u64 (ds_N ds) f of
                    (ok, n, f) \<Rightarrow>
                      (let ds = ds\<lparr>ds_N := n\<rparr> in
                       case fread_u64 (ds_trials ds) f of
                         (ok, t, f) \<Rightarrow>
                           (let ds = ds\<lparr>ds_trials := t\<rparr> in
                            case fread_u64 uninit f of
                              (ok, seed, f) \<Rightarrow>
                                (let total = ds_trials ds * ds_N ds;
                                     size = unat (total * 4);
                                     stored = fread_i32 (unat total) f
                                 in if \<not> malloc_ok size
                                    then (if stored = [] then Inr (0, ds\<lparr>ds_data := None\<rparr>)
                                          else Inl Null_pointer)
                                    else if size < length stored
                                    then Inl (Out_of_bounds (size div 4))
                                    else Inr (0, ds\<lparr>ds_data := Some (i32_items
                                      (stored @ map heap [length stored ..< size]))\<rparr>)))))))"

text \<open>
  A directory holding one file, named for \<open>N = 10\<close> but written for \<open>N = 5\<close> (one trial, the
  row \<open>[4,3,2,1,0]\<close>), and the bytes of that row.
\<close>

definition misnamed_fs :: "string \<Rightarrow> bytes option" where
  "misnamed_fs path =
     (if path = ''perms/perm_10.bin'' then Some (dataset_file 5 1 0xC0FFEE1234 [4, 3, 2, 1, 0])
      else None)"

definition misnamed_rows :: bytes where
  "misnamed_rows = concat (map (le_bytes 4) [4, 3, 2, 1, 0 :: i32])"

section \<open>Statistics of the drivers (bench.c, full_bench.c)\<close>

text \<open>
  Errors of a step are passed on; \<^verbatim>\<open>p[i]\<close> through a pointer \<open>p\<close> to an array (\<open>None\<close> for
  \<^verbatim>\<open>NULL\<close>) is an error outside the array.
\<close>

definition bind_err :: "'e + 'a \<Rightarrow> ('a \<Rightarrow> 'e + 'b) \<Rightarrow> 'e + 'b" where
  "bind_err r f = (case r of Inl e \<Rightarrow> Inl e | Inr x \<Rightarrow> f x)"

definition read_at :: "'a list option \<Rightarrow> u64 \<Rightarrow> memory_error + 'a" where
  "read_at p i =
     (case p of
        None \<Rightarrow> Inl Null_pointer
      | Some xs \<Rightarrow> if unat i < length xs then Inr (xs ! unat i) else Inl (Out_of_bounds (unat i)))"

definition write_at :: "'a list option \<Rightarrow> u64 \<Rightarrow> 'a \<Rightarrow> memory_error + 'a list option" where
  "write_at p i v =
     (case p of
        None \<Rightarrow> Inl Null_pointer
      | Some xs \<Rightarrow> if unat i < length xs then Inr (Some (xs[unat i := v])) else Inl (Out_of_bounds (unat i)))"

text \<open>\<^verbatim>\<open>for (uint64_t i = i0; i < n; i++) body\<close> on a state \<open>s\<close>.\<close>

function for_u64 :: "u64 \<Rightarrow> u64 \<Rightarrow> (u64 \<Rightarrow> 's \<Rightarrow> memory_error + 's) \<Rightarrow> 's \<Rightarrow> memory_error + 's" where
  "for_u64 i n body s =
     (if i < n then bind_err (body i s) (for_u64 (i + 1) n body) else Inr s)"
  by pat_completeness auto
termination
proof (relation "measure (\<lambda>(i, n, body, s). unat n - unat i)")
  show "wf (measure (\<lambda>(i, n, body, s). unat n - unat i))" by simp
next
  fix i n :: u64 and body :: "u64 \<Rightarrow> 's \<Rightarrow> memory_error + 's" and s x :: 's
  assume "i < n"
  then have "unat i < unat n" by (simp add: word_less_nat_alt)
  moreover have "i + 1 \<noteq> 0"
  proof
    assume "i + 1 = 0"
    then have "i = - 1" by (simp add: eq_neg_iff_add_eq_0)
    then have "unat i = 2 ^ 64 - 1" by (simp add: unsigned_minus_1_eq_mask mask_eq_exp_minus_1)
    with \<open>unat i < unat n\<close> unsigned_less[of n, where 'a = nat] show False by simp
  qed
  then have "unat (i + 1) = Suc (unat i)"
    using unatSuc[of i] by (simp add: add.commute)
  ultimately show "((i + 1, n, body, x), (i, n, body, s))
       \<in> measure (\<lambda>(i, n, body, s). unat n - unat i)"
    by simp
qed

declare for_u64.simps [simp del]

text \<open>
  \<^verbatim>\<open>detailed_stats_t\<close> of full_bench.c.
\<close>

record detailed_stats =
  st_comparisons :: "u64 list option"
  st_runtimes_us :: "double list option"
  st_trials :: u64
  st_mean_comps :: double
  st_stddev_comps :: double
  st_stderr_comps :: double
  st_ci95_low :: double
  st_ci95_high :: double
  st_mean_runtime :: double
  st_stddev_runtime :: double






text \<open>
  \<^verbatim>\<open>paired_test\<close> of full_bench.c: the three outputs \<open>(mean_diff, t_stat, p_approx)\<close>. The
  buffer \<open>diffs\<close> comes from an unchecked \<^verbatim>\<open>malloc(n * sizeof(double))\<close>, a product that wraps
  as a \<^verbatim>\<open>size_t\<close>; \<open>heap\<close> gives what fresh heap memory holds. Its two loops:
  \<^verbatim>\<open>diffs[i] = (double)a->comparisons[i] - (double)b->comparisons[i]; sum_diff += diffs[i]\<close>
  and \<^verbatim>\<open>d = diffs[i] - *mean_diff; var += d * d\<close>.
\<close>

definition paired_diffs_for ::
  "u64 list option \<Rightarrow> u64 list option \<Rightarrow> u64 \<Rightarrow> double list option
     \<Rightarrow> memory_error + double list option \<times> double" where
  "paired_diffs_for a_comparisons b_comparisons n buf =
     for_u64 0 n
       (\<lambda>i (buf, sum_diff).
          bind_err (read_at a_comparisons i) (\<lambda>x.
          bind_err (read_at b_comparisons i) (\<lambda>y.
          bind_err (write_at buf i (fsub (of_u64 x) (of_u64 y))) (\<lambda>buf.
          bind_err (read_at buf i) (\<lambda>d. Inr (buf, fadd sum_diff d))))))
       (buf, lit 0)"

definition paired_var_for :: "double list option \<Rightarrow> u64 \<Rightarrow> double \<Rightarrow> memory_error + double" where
  "paired_var_for buf n mean_diff =
     for_u64 0 n
       (\<lambda>i var. bind_err (read_at buf i)
          (\<lambda>di. let d = fsub di mean_diff in Inr (fadd var (fmul d d))))
       (lit 0)"

definition paired_test ::
  "(nat \<Rightarrow> bool) \<Rightarrow> (nat \<Rightarrow> double) \<Rightarrow> (real \<Rightarrow> real) \<Rightarrow> detailed_stats \<Rightarrow> detailed_stats
     \<Rightarrow> memory_error + double \<times> double \<times> double" where
  "paired_test malloc_ok heap erf a b =
     (let n = (if st_trials a < st_trials b then st_trials a else st_trials b);
          size = unat (n * 8);
          buf = (if malloc_ok size then Some (map heap [0 ..< size div 8]) else None)
      in bind_err (paired_diffs_for (st_comparisons a) (st_comparisons b) n buf)
           (\<lambda>(buf, sum_diff).
              let mean_diff = fdiv sum_diff (of_u64 n) in
              bind_err (paired_var_for buf n mean_diff) (\<lambda>var.
                let se = fdiv (fsqrt (fdiv var (of_u64 (n - 1)))) (fsqrt (of_u64 n));
                    t_stat = fdiv mean_diff se;
                    z = fabs t_stat;
                    p_approx = fmul (lit 2.0) (fsub (lit 1.0)
                      (fmul (lit 0.5) (fadd (lit 1.0) (ferf erf (fdiv z (fsqrt (lit 2.0)))))))
                in Inr (mean_diff, t_stat, p_approx))))"












text \<open>The statistics of two trials that took 5 comparisons each.\<close>

definition two_fives :: detailed_stats where
  "two_fives =
     \<lparr>st_comparisons = Some [5, 5], st_runtimes_us = Some [Finite 1, Finite 1],
      st_trials = 2, st_mean_comps = Finite 5, st_stddev_comps = Finite 0,
      st_stderr_comps = Finite 0, st_ci95_low = Finite 5, st_ci95_high = Finite 5,
      st_mean_runtime = Finite 1, st_stddev_runtime = Finite 0\<rparr>"

section \<open>Properties of the sort engine\<close>

lemma literal_sequence_simps:
  "name (literal_sequence nm gs) = nm"
  "num_gaps (literal_sequence nm gs) = length gs"
  "i < length gs \<Longrightarrow> gaps (literal_sequence nm gs) ! i = gs ! i"
  by (simp_all add: literal_sequence_def nth_append)

lemma list_update_Cons_numeral:
  "(x # xs)[numeral k := y] = x # xs[pred_numeral k := y]"
  by (simp add: numeral_eq_Suc)

lemma wf_literal_sequence: "length gs \<le> MAX_GAPS \<Longrightarrow> wf_seq (literal_sequence nm gs)"
  by (simp add: wf_seq_def literal_sequence_def)

subsection \<open>Sorting\<close>

text \<open>
  With a positive gap the inner loop returns, keeps the length, and the array with \<open>temp\<close>
  placed at the final \<open>j\<close> has the elements of the array with \<open>temp\<close> placed at the first.
\<close>

lemma while_positive_gap:
  "0 < gap \<Longrightarrow> j < length arr \<Longrightarrow>
   \<exists>arr' j' cmps'. shellsort_while arr gap temp j cmps = Some (arr', j', cmps')
      \<and> length arr' = length arr \<and> j' \<le> j
      \<and> mset (arr'[j' := temp]) = mset (arr[j := temp])"
proof (induction j arbitrary: arr cmps rule: less_induct)
  case (less j)
  show ?case
  proof (cases "gap \<le> j \<and> sint temp < sint (arr ! (j - gap))")
    case True
    let ?arr2 = "arr[j := arr ! (j - gap)]"
    from True less.prems have lt: "j - gap < j" by simp
    from less.IH[OF lt less.prems(1), of ?arr2 "cmps + 1"] less.prems lt
    obtain arr' j' cmps' where
      r: "shellsort_while ?arr2 gap temp (j - gap) (cmps + 1) = Some (arr', j', cmps')"
         "length arr' = length arr" "j' \<le> j - gap"
         "mset (arr'[j' := temp]) = mset (?arr2[j - gap := temp])"
      by auto
    have "?arr2[j - gap := temp] = (arr[j := temp])[j := (arr[j := temp]) ! (j - gap), j - gap := (arr[j := temp]) ! j]"
      using lt less.prems by simp
    also have "mset \<dots> = mset (arr[j := temp])"
      using lt less.prems by (intro mset_swap) auto
    finally have "mset (?arr2[j - gap := temp]) = mset (arr[j := temp])" .
    with r True show ?thesis
      by (subst shellsort_while.simps) auto
  next
    case False
    then show ?thesis
      by (subst shellsort_while.simps) auto
  qed
qed

lemma for_i_positive_gap:
  "0 < gap \<Longrightarrow> n \<le> length arr \<Longrightarrow>
   \<exists>arr' cmps'. shellsort_for_i arr n gap i cmps = Some (arr', cmps')
      \<and> length arr' = length arr \<and> mset arr' = mset arr"
proof (induction arr n gap i cmps rule: shellsort_for_i.induct)
  case (1 arr n gap i cmps)
  show ?case
  proof (cases "i < n")
    case True
    with "1.prems" have i: "i < length arr" by simp
    from while_positive_gap[OF "1.prems"(1) i, of "arr ! i" cmps]
    obtain arr' j' cmps' where
      w: "shellsort_while arr gap (arr ! i) i cmps = Some (arr', j', cmps')"
         "length arr' = length arr" "j' \<le> i"
         "mset (arr'[j' := arr ! i]) = mset (arr[i := arr ! i])"
      by blast
    from "1.IH"[OF True w(1) refl refl "1.prems"(1)] w "1.prems"
    obtain arr'' cmps'' where
      "shellsort_for_i (arr'[j' := arr ! i]) n gap (Suc i) cmps' = Some (arr'', cmps'')"
      "length arr'' = length arr" "mset arr'' = mset (arr'[j' := arr ! i])"
      by auto
    with True w show ?thesis
      by (subst shellsort_for_i.simps) simp
  next
    case False
    then show ?thesis by (subst shellsort_for_i.simps) simp
  qed
qed


text \<open>
  The walk of insertion sort (gap 1): with the hole at \<open>j\<close>, the other entries up to \<open>i\<close>
  in order and those between \<open>j\<close> and \<open>i\<close> above \<open>temp\<close>, placing \<open>temp\<close> where the walk
  stops leaves the entries up to \<open>i\<close> in order.
\<close>

lemma while_insertion:
  "i < length arr \<Longrightarrow> j \<le> i \<Longrightarrow>
   (\<forall>a b. a < b \<and> b \<le> i \<and> a \<noteq> j \<and> b \<noteq> j \<longrightarrow> sint (arr ! a) \<le> sint (arr ! b)) \<Longrightarrow>
   (\<forall>k. j < k \<and> k \<le> i \<longrightarrow> sint temp < sint (arr ! k)) \<Longrightarrow>
   shellsort_while arr 1 temp j cmps = Some (arr', j', cmps') \<Longrightarrow>
   (\<forall>a b. a < b \<and> b \<le> i \<longrightarrow> sint (arr'[j' := temp] ! a) \<le> sint (arr'[j' := temp] ! b))"
proof (induction j arbitrary: arr cmps)
  case 0
  from "0.prems"(5) have "arr' = arr" "j' = 0"
    by (subst (asm) shellsort_while.simps, simp)+
  show ?case
  proof (intro allI impI)
    fix a b assume ab: "a < b \<and> b \<le> i"
    show "sint (arr'[j' := temp] ! a) \<le> sint (arr'[j' := temp] ! b)"
    proof (cases "a = 0")
      case True
      from "0.prems"(1) have "arr \<noteq> []" by auto
      with True ab "0.prems"(1,4) \<open>arr' = arr\<close> \<open>j' = 0\<close> show ?thesis
        by (auto simp: less_imp_le)
    next
      case False
      with ab "0.prems"(3) \<open>arr' = arr\<close> \<open>j' = 0\<close> show ?thesis by auto
    qed
  qed
next
  case (Suc j)
  show ?case
  proof (cases "sint temp < sint (arr ! j)")
    case True
    let ?arr2 = "arr[Suc j := arr ! j]"
    from Suc.prems(5) True
    have run: "shellsort_while ?arr2 1 temp j (cmps + 1) = Some (arr', j', cmps')"
      by (subst (asm) shellsort_while.simps) simp
    have p1: "\<forall>a b. a < b \<and> b \<le> i \<and> a \<noteq> j \<and> b \<noteq> j \<longrightarrow> sint (?arr2 ! a) \<le> sint (?arr2 ! b)"
    proof (intro allI impI)
      fix a b assume ab: "a < b \<and> b \<le> i \<and> a \<noteq> j \<and> b \<noteq> j"
      show "sint (?arr2 ! a) \<le> sint (?arr2 ! b)"
      proof (cases "a = Suc j")
        case True
        with ab Suc.prems(1) have "?arr2 ! a = arr ! j" "?arr2 ! b = arr ! b" by auto
        moreover from ab True Suc.prems(3) have "sint (arr ! j) \<le> sint (arr ! b)" by auto
        ultimately show ?thesis by simp
      next
        case na: False
        show ?thesis
        proof (cases "b = Suc j")
          case True
          with ab na Suc.prems(1) have "?arr2 ! a = arr ! a" "?arr2 ! b = arr ! j" by auto
          moreover from ab True Suc.prems(3) have "sint (arr ! a) \<le> sint (arr ! j)" by auto
          ultimately show ?thesis by simp
        next
          case False
          with ab na Suc.prems(3) show ?thesis by auto
        qed
      qed
    qed
    have p2: "\<forall>k. j < k \<and> k \<le> i \<longrightarrow> sint temp < sint (?arr2 ! k)"
    proof (intro allI impI)
      fix k assume k: "j < k \<and> k \<le> i"
      show "sint temp < sint (?arr2 ! k)"
      proof (cases "k = Suc j")
        case True
        with Suc.prems(1,2) \<open>sint temp < sint (arr ! j)\<close> show ?thesis by simp
      next
        case False
        with k Suc.prems(4) show ?thesis by auto
      qed
    qed
    from Suc.prems(1,2) have "i < length ?arr2" "j \<le> i" by auto
    from Suc.IH[OF this p1 p2 run] show ?thesis .
  next
    case False
    from Suc.prems(5) False have res: "arr' = arr" "j' = Suc j"
      by (subst (asm) shellsort_while.simps, simp)+
    show ?thesis
    proof (intro allI impI)
      fix a b assume ab: "a < b \<and> b \<le> i"
      show "sint (arr'[j' := temp] ! a) \<le> sint (arr'[j' := temp] ! b)"
      proof (cases "a = Suc j")
        case True
        from Suc.prems(1,2) have "Suc j < length arr" by simp
        with True ab Suc.prems(1,4) res show ?thesis by (auto simp: less_imp_le)
      next
        case na: False
        show ?thesis
        proof (cases "b = Suc j")
          case True
          have "sint (arr ! a) \<le> sint (arr ! j)"
          proof (cases "a = j")
            case True then show ?thesis by simp
          next
            case False
            with ab \<open>b = Suc j\<close> Suc.prems(2,3) show ?thesis by auto
          qed
          moreover from Suc.prems(1,2) have "Suc j < length arr" by simp
          ultimately show ?thesis
            using \<open>\<not> sint temp < sint (arr ! j)\<close> True ab na res by auto
        next
          case False
          with ab na Suc.prems(3) res show ?thesis by auto
        qed
      qed
    qed
  qed
qed

lemma for_i_insertion:
  "n \<le> length arr \<Longrightarrow>
   (\<forall>a b. a < b \<and> b < i \<longrightarrow> sint (arr ! a) \<le> sint (arr ! b)) \<Longrightarrow>
   shellsort_for_i arr n 1 i cmps = Some (arr', cmps') \<Longrightarrow>
   (\<forall>a b. a < b \<and> b < n \<longrightarrow> sint (arr' ! a) \<le> sint (arr' ! b))"
proof (induction arr n "1::nat" i cmps rule: shellsort_for_i.induct)
  case (1 arr n i cmps)
  show ?case
  proof (cases "i < n")
    case True
    with "1.prems" have i: "i < length arr" by simp
    from while_positive_gap[of 1 i arr "arr ! i" cmps] i
    obtain arr2 j2 cmps2 where
      w: "shellsort_while arr 1 (arr ! i) i cmps = Some (arr2, j2, cmps2)"
         "length arr2 = length arr" "j2 \<le> i"
      by auto
    from "1.prems"(2) have "\<forall>a b. a < b \<and> b \<le> i \<and> a \<noteq> i \<and> b \<noteq> i \<longrightarrow> sint (arr ! a) \<le> sint (arr ! b)"
      by auto
    from while_insertion[OF i le_refl this _ w(1)]
    have sorted_i: "\<forall>a b. a < b \<and> b < Suc i \<longrightarrow>
        sint (arr2[j2 := arr ! i] ! a) \<le> sint (arr2[j2 := arr ! i] ! b)"
      by (auto simp: less_Suc_eq_le)
    from "1.prems"(3) True w
    have "shellsort_for_i (arr2[j2 := arr ! i]) n 1 (Suc i) cmps2 = Some (arr', cmps')"
      by (subst (asm) shellsort_for_i.simps) simp
    from "1.hyps"[OF True w(1) refl refl _ sorted_i this] "1.prems"(1) w(2)
    show ?thesis by simp
  next
    case False
    with "1.prems"(3) have "arr' = arr"
      by (subst (asm) shellsort_for_i.simps) simp
    with False "1.prems"(2) show ?thesis by auto
  qed
qed


lemma for_g_sorts:
  "0 < g \<Longrightarrow> gaps seq ! 0 = 1 \<Longrightarrow> (\<forall>k < g. gaps seq ! k \<noteq> 0) \<Longrightarrow> n = length arr \<Longrightarrow>
   \<exists>arr' cmps'. shellsort_for_g arr n seq g cmps = Some (arr', cmps')
      \<and> sorted (map sint arr') \<and> mset arr' = mset arr"
proof (induction g arbitrary: arr cmps)
  case 0
  then show ?case by simp
next
  case (Suc g)
  show ?case
  proof (cases "g = 0")
    case True
    show ?thesis
    proof (cases "n \<le> 1")
      case short: True
      with Suc.prems(4) have "sorted (map sint arr)"
        by (cases arr) auto
      with True short Suc.prems(2) show ?thesis by simp
    next
      case False
      from for_i_positive_gap[of 1 n arr 1 cmps] Suc.prems(4)
      obtain arr' cmps' where
        r: "shellsort_for_i arr n 1 1 cmps = Some (arr', cmps')"
           "length arr' = length arr" "mset arr' = mset arr"
        by auto
      from for_i_insertion[OF _ _ r(1)] Suc.prems(4)
      have "\<forall>a b. a < b \<and> b < n \<longrightarrow> sint (arr' ! a) \<le> sint (arr' ! b)"
        by simp
      with r(2) Suc.prems(4) have "sorted (map sint arr')"
        by (simp add: sorted_iff_nth_mono_less)
      with r True False Suc.prems(2) show ?thesis by simp
    qed
  next
    case False
    then have g: "0 < g" by simp
    from Suc.prems(3) have nz: "\<forall>k < g. gaps seq ! k \<noteq> 0" and gap: "gaps seq ! g \<noteq> 0"
      by auto
    show ?thesis
    proof (cases "n \<le> unat (gaps seq ! g)")
      case True
      with Suc.IH[OF g Suc.prems(2) nz Suc.prems(4), of cmps] show ?thesis by simp
    next
      case pass: False
      from gap have "0 < unat (gaps seq ! g)" by (simp add: unat_gt_0)
      from for_i_positive_gap[OF this, of n arr "unat (gaps seq ! g)" cmps] Suc.prems(4)
      obtain arr' cmps' where
        r: "shellsort_for_i arr n (unat (gaps seq ! g)) (unat (gaps seq ! g)) cmps = Some (arr', cmps')"
           "length arr' = length arr" "mset arr' = mset arr"
        by auto
      from Suc.IH[OF g Suc.prems(2) nz, of arr' cmps'] r(2) Suc.prems(4)
      obtain arr'' cmps'' where
        "shellsort_for_g arr' n seq g cmps' = Some (arr'', cmps'')"
        "sorted (map sint arr'')" "mset arr'' = mset arr'"
        by auto
      with r pass show ?thesis by simp
    qed
  qed
qed

text \<open>\<^verbatim>\<open>shellsort_stats\<close> runs the same loops: forgetting the move counter gives \<^verbatim>\<open>shellsort\<close>.\<close>

lemma stats_while_eq:
  "0 < gap \<Longrightarrow>
   shellsort_while arr gap temp j (comparisons st)
     = map_option (\<lambda>(a, j', s). (a, j', comparisons s)) (shellsort_stats_while arr gap temp j st)"
proof (induction j arbitrary: arr st rule: less_induct)
  case (less j)
  show ?case
  proof (cases "gap \<le> j \<and> sint temp < sint (arr ! (j - gap))")
    case True
    with less.prems have lt: "j - gap < j" by simp
    from less.IH[OF lt less.prems,
        of "arr[j := arr ! (j - gap)]" "st\<lparr>comparisons := comparisons st + 1, moves := moves st + 1\<rparr>"]
      True
    show ?thesis
      by (subst shellsort_while.simps, subst shellsort_stats_while.simps) simp
  next
    case False
    then show ?thesis
      by (subst shellsort_while.simps, subst shellsort_stats_while.simps) auto
  qed
qed

lemma stats_for_i_eq:
  "0 < gap \<Longrightarrow>
   shellsort_for_i arr n gap i (comparisons st)
     = map_option (\<lambda>(a, s). (a, comparisons s)) (shellsort_stats_for_i arr n gap i st)"
proof (induction arr n gap i st rule: shellsort_stats_for_i.induct)
  case (1 arr n gap i st)
  show ?case
  proof (cases "i < n")
    case True
    show ?thesis
    proof (cases "shellsort_stats_while arr gap (arr ! i) i st")
      case None
      with True stats_while_eq[OF "1.prems", of arr "arr ! i" i st] show ?thesis
        by (subst shellsort_for_i.simps, subst shellsort_stats_for_i.simps) simp
    next
      case (Some r)
      obtain arr' j' st' where r: "r = (arr', j', st')" by (cases r) auto
      from "1.IH"[OF True Some[unfolded r] refl refl "1.prems"]
      have "shellsort_for_i (arr'[j' := arr ! i]) n gap (Suc i) (comparisons st')
        = map_option (\<lambda>(a, s). (a, comparisons s))
            (shellsort_stats_for_i (arr'[j' := arr ! i]) n gap (Suc i) (st'\<lparr>moves := moves st' + 1\<rparr>))"
        by simp
      with True Some r stats_while_eq[OF "1.prems", of arr "arr ! i" i st] show ?thesis
        by (subst shellsort_for_i.simps, subst shellsort_stats_for_i.simps) simp
    qed
  next
    case False
    then show ?thesis
      by (subst shellsort_for_i.simps, subst shellsort_stats_for_i.simps) simp
  qed
qed

lemma stats_for_g_eq:
  "(\<forall>k < g. gaps seq ! k \<noteq> 0) \<Longrightarrow>
   shellsort_for_g arr n seq g (comparisons st)
     = map_option (\<lambda>(a, s). (a, comparisons s)) (shellsort_stats_for_g arr n seq g st)"
proof (induction g arbitrary: arr st)
  case 0
  then show ?case by simp
next
  case (Suc g)
  then have nz: "\<forall>k < g. gaps seq ! k \<noteq> 0" and gap: "0 < unat (gaps seq ! g)"
    by (auto simp: unat_gt_0)
  show ?case
  proof (cases "n \<le> unat (gaps seq ! g)")
    case True
    with Suc.IH[OF nz] show ?thesis by simp
  next
    case False
    show ?thesis
    proof (cases "shellsort_stats_for_i arr n (unat (gaps seq ! g)) (unat (gaps seq ! g)) st")
      case None
      with False stats_for_i_eq[OF gap, of arr n "unat (gaps seq ! g)" st] show ?thesis by simp
    next
      case (Some r)
      obtain arr' st' where r: "r = (arr', st')" by (cases r) auto
      with False Some stats_for_i_eq[OF gap, of arr n "unat (gaps seq ! g)" st]
        Suc.IH[OF nz, of arr' st']
      show ?thesis by simp
    qed
  qed
qed

lemma seq_invariants_positive:
  "seq_invariants seq \<Longrightarrow> 0 < num_gaps seq \<and> gaps seq ! 0 = 1 \<and> (\<forall>k < num_gaps seq. gaps seq ! k \<noteq> 0)"
  by (simp add: seq_invariants_def)

text \<open>
  C1. For every \<^verbatim>\<open>int32_t\<close> array and every gap sequence that satisfies the invariants,
  \<^verbatim>\<open>shellsort\<close> and \<^verbatim>\<open>shellsort_stats\<close> both return, leave the same array, that array is
  ascending (as signed values) and has exactly the elements of the input, and the two
  comparison counts agree.
\<close>

theorem shellsort_sorts:
  assumes "wf_seq seq" and "seq_invariants seq"
  shows "\<exists>arr' cmps st.
           shellsort arr (length arr) seq = Some (arr', cmps) \<and>
           shellsort_stats arr (length arr) seq = Some (arr', st) \<and>
           comparisons st = cmps \<and>
           sorted (map sint arr') \<and> mset arr' = mset arr"
proof -
  from seq_invariants_positive[OF assms(2)]
  have pos: "0 < num_gaps seq" and one: "gaps seq ! 0 = 1"
    and nz: "\<forall>k < num_gaps seq. gaps seq ! k \<noteq> 0"
    by auto
  from for_g_sorts[OF pos one nz refl, of arr 0]
  obtain arr' cmps where
    r: "shellsort arr (length arr) seq = Some (arr', cmps)"
       "sorted (map sint arr')" "mset arr' = mset arr"
    by (auto simp: shellsort_def)
  from stats_for_g_eq[OF nz, of arr "length arr" "\<lparr>comparisons = 0, moves = 0\<rparr>"] r(1)
  obtain st where "shellsort_stats arr (length arr) seq = Some (arr', st)" "comparisons st = cmps"
    by (auto simp: shellsort_def shellsort_stats_def)
  with r show ?thesis by blast
qed

theorem shellsort_sorts_witness:
  "wf_seq (literal_sequence ''Ciura'' [1, 4]) \<and>
   seq_invariants (literal_sequence ''Ciura'' [1, 4]) \<and>
   (\<exists>arr' cmps st.
       shellsort [3, - 7, 2, 3, 0] (length [3, - 7, 2, 3, 0 :: i32]) (literal_sequence ''Ciura'' [1, 4])
         = Some (arr', cmps) \<and>
       shellsort_stats [3, - 7, 2, 3, 0] (length [3, - 7, 2, 3, 0 :: i32]) (literal_sequence ''Ciura'' [1, 4])
         = Some (arr', st) \<and>
       comparisons st = cmps \<and> sorted (map sint arr') \<and> mset arr' = mset [3, - 7, 2, 3, 0]) \<and>
   shellsort [3, - 7, 2, 3, 0] 5 (literal_sequence ''Ciura'' [1, 4]) = Some ([- 7, 0, 2, 3, 3], 5)"
proof -
  have wf: "wf_seq (literal_sequence ''Ciura'' [1, 4])"
    by (simp add: wf_literal_sequence MAX_GAPS_def)
  have inv: "seq_invariants (literal_sequence ''Ciura'' [1, 4])"
    by (simp add: seq_invariants_def literal_sequence_simps All_less_Suc word_less_nat_alt)
  have run: "shellsort [3, - 7, 2, 3, 0] 5 (literal_sequence ''Ciura'' [1, 4]) = Some ([- 7, 0, 2, 3, 3], 5)"
    by (simp add: shellsort_def literal_sequence_def MAX_GAPS_def
        shellsort_while.simps shellsort_for_i.simps list_update_Cons_numeral)
  show ?thesis
    by (intro conjI wf inv run shellsort_sorts[OF wf inv])
qed

subsection \<open>Counting\<close>

text \<open>The comparisons of a sorted input: one per index and applied gap.\<close>

lemma while_no_shift:
  "gap \<le> j \<Longrightarrow> \<not> sint temp < sint (arr ! (j - gap))
   \<Longrightarrow> shellsort_while arr gap temp j cmps = Some (arr, j, cmps + 1)"
  by (subst shellsort_while.simps) simp

lemma for_i_sorted_input:
  "sorted (map sint arr) \<Longrightarrow> n \<le> length arr \<Longrightarrow> gap \<le> i \<Longrightarrow>
   shellsort_for_i arr n gap i cmps = Some (arr, cmps + of_nat (n - i))"
proof (induction arr n gap i cmps rule: shellsort_for_i.induct)
  case (1 arr n gap i cmps)
  show ?case
  proof (cases "i < n")
    case True
    with "1.prems" have "sint (arr ! (i - gap)) \<le> sint (arr ! i)"
      by (simp add: sorted_iff_nth_mono)
    then have w: "shellsort_while arr gap (arr ! i) i cmps = Some (arr, i, cmps + 1)"
      using "1.prems" by (intro while_no_shift) auto
    have "shellsort_for_i (arr[i := arr ! i]) n gap (Suc i) (cmps + 1)
            = Some (arr[i := arr ! i], cmps + 1 + of_nat (n - Suc i))"
      using True w "1.prems" by (intro "1.IH") auto
    moreover have "cmps + 1 + of_nat (n - Suc i) = cmps + (of_nat (n - i) :: u64)"
      using True by (simp add: Suc_diff_Suc[symmetric] del: Suc_diff_Suc)
    ultimately show ?thesis
      using True w by (subst shellsort_for_i.simps) simp
  next
    case False
    then show ?thesis by (subst shellsort_for_i.simps) simp
  qed
qed

lemma for_g_sorted_input:
  "sorted (map sint arr) \<Longrightarrow> g \<le> length (gaps seq) \<Longrightarrow>
   shellsort_for_g arr (length arr) seq g cmps
     = Some (arr, cmps + of_nat (sorted_input_comparisons (length arr) (take g (gaps seq))))"
proof (induction g arbitrary: cmps)
  case 0
  then show ?case by (simp add: sorted_input_comparisons_def)
next
  case (Suc g)
  then have g: "g < length (gaps seq)" by simp
  have split: "sorted_input_comparisons (length arr) (take (Suc g) (gaps seq))
     = sorted_input_comparisons (length arr) (take g (gaps seq))
       + (if unat (gaps seq ! g) < length arr then length arr - unat (gaps seq ! g) else 0)"
    using g by (simp add: sorted_input_comparisons_def take_Suc_conv_app_nth)
  show ?case
  proof (cases "length arr \<le> unat (gaps seq ! g)")
    case True
    with Suc split show ?thesis by simp
  next
    case False
    have "shellsort_for_i arr (length arr) (unat (gaps seq ! g)) (unat (gaps seq ! g)) cmps
       = Some (arr, cmps + of_nat (length arr - unat (gaps seq ! g)))"
      using Suc.prems by (intro for_i_sorted_input) auto
    with False Suc split show ?thesis by (simp add: add.assoc add.commute)
  qed
qed

text \<open>
  C3. For every already-sorted (ascending) array of length \<open>n\<close> and every valid gap sequence,
  \<^verbatim>\<open>shellsort\<close> leaves the array as it is and returns the sum over the gaps \<open>g < n\<close> of
  \<open>n - g\<close>, as a 64-bit counter; the counter is that sum itself whenever the sum fits 64
  bits.
\<close>

theorem shellsort_sorted_input:
  assumes "wf_seq seq" and "seq_invariants seq" and "sorted (map sint arr)"
  shows "shellsort arr (length arr) seq
           = Some (arr, of_nat (sorted_input_comparisons (length arr) (populated seq)))
         \<and> (sorted_input_comparisons (length arr) (populated seq) < 2 ^ 64 \<longrightarrow>
              unat (of_nat (sorted_input_comparisons (length arr) (populated seq)) :: u64)
                = sorted_input_comparisons (length arr) (populated seq))"
proof
  from assms(1) have "num_gaps seq \<le> length (gaps seq)"
    by (simp add: wf_seq_def)
  from for_g_sorted_input[OF assms(3) this, of 0]
  show "shellsort arr (length arr) seq
           = Some (arr, of_nat (sorted_input_comparisons (length arr) (populated seq)))"
    by (simp add: shellsort_def populated_def)
  show "sorted_input_comparisons (length arr) (populated seq) < 2 ^ 64 \<longrightarrow>
              unat (of_nat (sorted_input_comparisons (length arr) (populated seq)) :: u64)
                = sorted_input_comparisons (length arr) (populated seq)"
    by (simp add: unat_of_nat)
qed

theorem shellsort_sorted_input_witness:
  "wf_seq (literal_sequence ''Ciura'' [1, 4]) \<and>
   seq_invariants (literal_sequence ''Ciura'' [1, 4]) \<and>
   sorted (map sint [- 2, 0, 0, 5, 9 :: i32]) \<and>
   sorted_input_comparisons (length [- 2, 0, 0, 5, 9 :: i32])
     (populated (literal_sequence ''Ciura'' [1, 4])) = 5 \<and>
   shellsort [- 2, 0, 0, 5, 9] (length [- 2, 0, 0, 5, 9 :: i32]) (literal_sequence ''Ciura'' [1, 4])
     = Some ([- 2, 0, 0, 5, 9], 5)"
proof -
  have wf: "wf_seq (literal_sequence ''Ciura'' [1, 4])"
    by (simp add: wf_literal_sequence MAX_GAPS_def)
  have inv: "seq_invariants (literal_sequence ''Ciura'' [1, 4])"
    by (simp add: seq_invariants_def literal_sequence_simps All_less_Suc word_less_nat_alt)
  have srt: "sorted (map sint [- 2, 0, 0, 5, 9 :: i32])"
    by simp
  have cnt: "sorted_input_comparisons (length [- 2, 0, 0, 5, 9 :: i32])
               (populated (literal_sequence ''Ciura'' [1, 4])) = 5"
    by (simp add: sorted_input_comparisons_def populated_def literal_sequence_def)
  have "shellsort [- 2, 0, 0, 5, 9] (length [- 2, 0, 0, 5, 9 :: i32]) (literal_sequence ''Ciura'' [1, 4])
     = Some ([- 2, 0, 0, 5, 9], of_nat 5)"
    using shellsort_sorted_input[OF wf inv srt, THEN conjunct1] unfolding cnt .
  then have run: "shellsort [- 2, 0, 0, 5, 9] (length [- 2, 0, 0, 5, 9 :: i32])
      (literal_sequence ''Ciura'' [1, 4]) = Some ([- 2, 0, 0, 5, 9], 5)"
    by simp
  show ?thesis
    by (intro conjI wf inv srt cnt run)
qed

subsection \<open>The reverse-sorted array of length 5\<close>


text \<open>
  C2 (as amended). On the reverse-sorted array \<open>[4,3,2,1,0]\<close> with the single-gap sequence
  \<open>[1]\<close>, \<^verbatim>\<open>shellsort_stats\<close> sorts the array and returns 10 comparisons and 14 moves:
  10 shifts and the 4 final placements of the indices 1 to 4 (the loop starts at
  \<open>i = gap\<close>, so index 0 is never placed).
\<close>

theorem shellsort_stats_reverse5:
  "shellsort_stats [4, 3, 2, 1, 0] 5 (literal_sequence ''Insertion'' [1])
     = Some ([0, 1, 2, 3, 4], \<lparr>comparisons = 10, moves = 14\<rparr>)"
  by (simp add: shellsort_stats_def literal_sequence_def MAX_GAPS_def
      shellsort_stats_while.simps shellsort_stats_for_i.simps list_update_Cons_numeral)

text \<open>
  C2 as stated (10 comparisons and 15 moves) does not hold: the returned statistics are
  not that pair.
\<close>

theorem shellsort_stats_reverse5_not_15:
  "map_option snd (shellsort_stats [4, 3, 2, 1, 0] 5 (literal_sequence ''Insertion'' [1]))
     \<noteq> Some \<lparr>comparisons = 10, moves = 15\<rparr>"
  by (simp add: shellsort_stats_def literal_sequence_def MAX_GAPS_def
      shellsort_stats_while.simps shellsort_stats_for_i.simps list_update_Cons_numeral)

section \<open>Properties of the validator\<close>


lemma dec_digits: "dec (Suc 0) = ''1''" "dec (Suc (Suc 0)) = ''2''" "dec 4 = ''4''"
  by code_simp+

text \<open>The loop accepts when every index from \<open>i\<close> on passes both checks.\<close>

lemma valid_for_ok:
  "(\<forall>k. i \<le> k \<and> k < num_gaps seq \<longrightarrow>
        gaps seq ! k \<noteq> 0 \<and> (0 < k \<longrightarrow> gaps seq ! (k - 1) < gaps seq ! k))
   \<Longrightarrow> gap_sequence_valid_for seq reason i = (1, None)"
proof (induction seq reason i rule: gap_sequence_valid_for.induct)
  case (1 seq reason i)
  show ?case
  proof (cases "i < num_gaps seq")
    case True
    with "1.prems" have ok: "gaps seq ! i \<noteq> 0" "0 < i \<longrightarrow> gaps seq ! (i - 1) < gaps seq ! i"
      by auto
    have "gap_sequence_valid_for seq reason (Suc i) = (1, None)"
      using True ok "1.prems" by (intro "1.IH") (auto simp: not_le)
    with True ok show ?thesis
      by (subst gap_sequence_valid_for.simps) (auto simp: not_le)
  next
    case False
    then show ?thesis by (subst gap_sequence_valid_for.simps) simp
  qed
qed

text \<open>
  The loop rejects when some index from \<open>i\<close> on fails a check, and the message names a
  violation the sequence has (the first one in index order).
\<close>

lemma valid_for_bad:
  "\<exists>k. i \<le> k \<and> k < num_gaps seq \<and>
        (gaps seq ! k = 0 \<or> (0 < k \<and> gaps seq ! k \<le> gaps seq ! (k - 1)))
   \<Longrightarrow> \<exists>v. violated seq v \<and>
         gap_sequence_valid_for seq reason i = (0, snprintf_reason reason (violation_text seq v))"
proof (induction seq reason i rule: gap_sequence_valid_for.induct)
  case (1 seq reason i)
  from "1.prems" have lt: "i < num_gaps seq" by auto
  show ?case
  proof (cases "gaps seq ! i = 0")
    case True
    with lt have "violated seq (Gap_is_zero i)" by simp
    moreover from lt True have "gap_sequence_valid_for seq reason i
        = (0, snprintf_reason reason (violation_text seq (Gap_is_zero i)))"
      by (subst gap_sequence_valid_for.simps) simp
    ultimately show ?thesis by blast
  next
    case nz: False
    show ?thesis
    proof (cases "0 < i \<and> gaps seq ! i \<le> gaps seq ! (i - 1)")
      case True
      with lt have "violated seq (Not_increasing i)" by simp
      moreover from lt nz True have "gap_sequence_valid_for seq reason i
          = (0, snprintf_reason reason (violation_text seq (Not_increasing i)))"
        by (subst gap_sequence_valid_for.simps) simp
      ultimately show ?thesis by blast
    next
      case False
      from "1.prems" obtain k where k: "i \<le> k" "k < num_gaps seq"
        "gaps seq ! k = 0 \<or> (0 < k \<and> gaps seq ! k \<le> gaps seq ! (k - 1))" by blast
      with nz False have "k \<noteq> i" by auto
      with k have "\<exists>k. Suc i \<le> k \<and> k < num_gaps seq \<and>
        (gaps seq ! k = 0 \<or> (0 < k \<and> gaps seq ! k \<le> gaps seq ! (k - 1)))"
        by (intro exI[of _ k]) auto
      from "1.IH"[OF lt nz _ this] False obtain v where
        "violated seq v" "gap_sequence_valid_for seq reason (Suc i)
           = (0, snprintf_reason reason (violation_text seq v))" by auto
      moreover have "gap_sequence_valid_for seq reason i = gap_sequence_valid_for seq reason (Suc i)"
        using lt nz False by (subst gap_sequence_valid_for.simps) auto
      ultimately show ?thesis by auto
    qed
  qed
qed

text \<open>
  C5. \<^verbatim>\<open>gap_sequence_valid\<close> returns 1 (and leaves the reason buffer alone) for every
  sequence that satisfies the invariants, in particular the hand-built \<open>[1,4,10,23]\<close>. For
  every sequence with zero length, a first gap other than 1, a zero gap or a
  non-increasing adjacent pair it returns 0, and the reason buffer receives the message
  of a violation that the sequence really has (cut to the buffer's capacity, as
  \<^verbatim>\<open>snprintf\<close> does; nothing is written through a \<^verbatim>\<open>NULL\<close> pointer).
\<close>

theorem gap_sequence_valid_verdict:
  "(seq_invariants seq \<longrightarrow> gap_sequence_valid seq reason = (1, None)) \<and>
   (num_gaps seq = 0 \<or> gaps seq ! 0 \<noteq> 1 \<or> (\<exists>i < num_gaps seq. gaps seq ! i = 0) \<or>
      (\<exists>i < num_gaps seq. 0 < i \<and> gaps seq ! i \<le> gaps seq ! (i - 1))
    \<longrightarrow> (\<exists>v. violated seq v \<and>
           gap_sequence_valid seq reason = (0, snprintf_reason reason (violation_text seq v)))) \<and>
   gap_sequence_valid (literal_sequence ''hand-built'' [1, 4, 10, 23]) reason = (1, None)"
proof (intro conjI impI)
  assume "seq_invariants seq"
  then show "gap_sequence_valid seq reason = (1, None)"
    by (simp add: gap_sequence_valid_def seq_invariants_def valid_for_ok)
next
  assume bad: "num_gaps seq = 0 \<or> gaps seq ! 0 \<noteq> 1 \<or> (\<exists>i < num_gaps seq. gaps seq ! i = 0) \<or>
      (\<exists>i < num_gaps seq. 0 < i \<and> gaps seq ! i \<le> gaps seq ! (i - 1))"
  show "\<exists>v. violated seq v \<and>
           gap_sequence_valid seq reason = (0, snprintf_reason reason (violation_text seq v))"
  proof (cases "num_gaps seq = 0")
    case True
    then show ?thesis
      by (intro exI[of _ Empty_sequence]) (simp add: gap_sequence_valid_def)
  next
    case ne: False
    show ?thesis
    proof (cases "gaps seq ! 0 = 1")
      case False
      with ne show ?thesis
        by (intro exI[of _ First_gap_not_1]) (simp add: gap_sequence_valid_def)
    next
      case True
      with ne bad have "\<exists>k. 0 \<le> k \<and> k < num_gaps seq \<and>
          (gaps seq ! k = 0 \<or> (0 < k \<and> gaps seq ! k \<le> gaps seq ! (k - 1)))"
        by auto
      from valid_for_bad[OF this, of reason] ne True show ?thesis
        by (simp add: gap_sequence_valid_def)
    qed
  qed
next
  show "gap_sequence_valid (literal_sequence ''hand-built'' [1, 4, 10, 23]) reason = (1, None)"
    by (simp add: gap_sequence_valid_def gap_sequence_valid_for.simps literal_sequence_simps
        word_le_nat_alt)
qed

theorem gap_sequence_valid_verdict_witness:
  "seq_invariants (literal_sequence ''Ciura-prefix'' [1, 4, 10, 23]) \<and>
   gap_sequence_valid (literal_sequence ''Ciura-prefix'' [1, 4, 10, 23]) (Some 256) = (1, None) \<and>
   (\<exists>i < num_gaps (literal_sequence ''stalled'' [1, 4, 4]).
       0 < i \<and> gaps (literal_sequence ''stalled'' [1, 4, 4]) ! i
               \<le> gaps (literal_sequence ''stalled'' [1, 4, 4]) ! (i - 1)) \<and>
   (\<exists>v. violated (literal_sequence ''stalled'' [1, 4, 4]) v \<and>
        gap_sequence_valid (literal_sequence ''stalled'' [1, 4, 4]) (Some 256)
          = (0, snprintf_reason (Some 256) (violation_text (literal_sequence ''stalled'' [1, 4, 4]) v))) \<and>
   gap_sequence_valid (literal_sequence ''stalled'' [1, 4, 4]) (Some 256)
     = (0, Some ''Not strictly increasing: gaps[2]=4 <= gaps[1]=4'')"
proof -
  have inv: "seq_invariants (literal_sequence ''Ciura-prefix'' [1, 4, 10, 23])"
    by (simp add: seq_invariants_def literal_sequence_simps All_less_Suc word_less_nat_alt)
  have bad: "\<exists>i < num_gaps (literal_sequence ''stalled'' [1, 4, 4]).
       0 < i \<and> gaps (literal_sequence ''stalled'' [1, 4, 4]) ! i
               \<le> gaps (literal_sequence ''stalled'' [1, 4, 4]) ! (i - 1)"
    by (intro exI[of _ 2]) (simp add: literal_sequence_simps)
  have run: "gap_sequence_valid (literal_sequence ''stalled'' [1, 4, 4]) (Some 256)
     = (0, Some ''Not strictly increasing: gaps[2]=4 <= gaps[1]=4'')"
    by (simp add: gap_sequence_valid_def gap_sequence_valid_for.simps literal_sequence_simps
        snprintf_reason_def word_le_nat_alt dec_digits)
  have ok: "gap_sequence_valid (literal_sequence ''Ciura-prefix'' [1, 4, 10, 23]) (Some 256) = (1, None)"
    by (rule gap_sequence_valid_verdict[THEN conjunct1, THEN mp, OF inv])
  have ex: "\<exists>v. violated (literal_sequence ''stalled'' [1, 4, 4]) v \<and>
        gap_sequence_valid (literal_sequence ''stalled'' [1, 4, 4]) (Some 256)
          = (0, snprintf_reason (Some 256) (violation_text (literal_sequence ''stalled'' [1, 4, 4]) v))"
    by (rule gap_sequence_valid_verdict[THEN conjunct2, THEN conjunct1, THEN mp])
       (intro disjI2, rule bad)
  show ?thesis
    by (intro conjI inv ok bad ex run)
qed

section \<open>Properties of the RNG\<close>

text \<open>A draw that returns is below its bound.\<close>

lemma rng_uniform_for_bound:
  assumes run: "rng_uniform_for rng n threshold = Some y" and "n \<noteq> 0"
  shows "fst y < n"
  using assms(2)
  by (induct rule: rng_uniform_for.raw_induct[OF _ run])
     (auto split: prod.splits if_splits simp: word_mod_less_divisor word_greater_zero_iff)

lemma rng_uniform_bound:
  "rng_uniform rng n = Some (r, rng') \<Longrightarrow> n \<noteq> 0 \<Longrightarrow> r < n"
  by (auto simp: rng_uniform_def dest: rng_uniform_for_bound)

text \<open>
  From an index inside an array of fewer than \<open>2\<^sup>6\<^sup>4\<close> elements the shuffle loop never leaves the
  array; when it returns it has made one draw per remaining index and permuted the array.
\<close>

lemma u64_succ_no_wrap: "unat (i::u64) < n \<Longrightarrow> n < 2 ^ 64 \<Longrightarrow> i + 1 \<noteq> 0"
proof
  assume a: "unat i < n" "n < 2 ^ 64" "i + 1 = 0"
  from a(3) have "i = - 1" by (simp add: eq_neg_iff_add_eq_0)
  then have "unat i = 2 ^ 64 - 1" by (simp add: unsigned_minus_1_eq_mask mask_eq_exp_minus_1)
  with a(1,2) show False by simp
qed

lemma rng_shuffle_for_safe:
  "unat i < length arr \<Longrightarrow> length arr < 2 ^ 64 \<Longrightarrow>
   (case rng_shuffle_for rng arr i draws of
      None \<Rightarrow> True
    | Some (Inl e) \<Rightarrow> False
    | Some (Inr (arr', rng', draws')) \<Rightarrow>
        draws' = draws + unat i \<and> length arr' = length arr \<and> mset arr' = mset arr)"
proof (induction rng arr i draws rule: rng_shuffle_for.induct)
  case (1 rng arr i draws)
  show ?case
  proof (cases "0 < i")
    case False
    then show ?thesis
      by (subst rng_shuffle_for.simps) (simp add: word_greater_zero_iff)
  next
    case True
    from "1.prems" have nowrap: "i + 1 \<noteq> 0"
      by (rule u64_succ_no_wrap)
    show ?thesis
    proof (cases "rng_uniform rng (i + 1)")
      case None
      with True show ?thesis by (subst rng_shuffle_for.simps) simp
    next
      case (Some a)
      obtain j rng' where a: "a = (j, rng')" by (cases a) auto
      from rng_uniform_bound[OF Some[unfolded a] nowrap] have "j < i + 1" .
      then have "j \<le> i" using nowrap Word.less_inc_imp_less_eq by blast
      then have ji: "unat j \<le> unat i" by (simp add: word_le_nat_alt)
      let ?arr2 = "(arr[unat i := arr ! unat j])[unat j := arr ! unat i]"
      have len: "length ?arr2 = length arr" by simp
      have ms: "mset ?arr2 = mset arr"
        using ji "1.prems"(1) by (intro mset_swap) auto
      from True have "unat (i - 1) < unat i"
        by (simp add: unat_minus_one word_greater_zero_iff unat_gt_0)
      with "1.prems" have pre: "unat (i - 1) < length ?arr2" "length ?arr2 < 2 ^ 64" by auto
      from True have cnt: "Suc draws + unat (i - 1) = draws + unat i"
        by (simp add: unat_minus_one word_greater_zero_iff unat_gt_0)
      from ji "1.prems"(1) have inb: "\<not> length arr \<le> unat i" "\<not> length arr \<le> unat j"
        by auto
      from "1.IH"[OF True Some[unfolded a] refl inb refl refl refl pre]
      have "case rng_shuffle_for rng' ?arr2 (i - 1) (Suc draws) of
              None \<Rightarrow> True
            | Some (Inl e) \<Rightarrow> False
            | Some (Inr (arr', rng'', draws')) \<Rightarrow>
                draws' = Suc draws + unat (i - 1) \<and> length arr' = length ?arr2 \<and> mset arr' = mset ?arr2"
        by (simp add: Let_def)
      with True Some a ji "1.prems"(1) len ms cnt show ?thesis
        by (subst rng_shuffle_for.simps) (auto simp: Let_def split: option.splits sum.splits)
    qed
  qed
qed


text \<open>
  A draw returns exactly when the generator, started from the state of the call, sooner
  or later emits an output at or above the threshold.
\<close>

lemma rng_uniform_for_returns_iff:
  "(\<exists>y. rng_uniform_for rng n threshold = Some y) \<longleftrightarrow>
   (\<exists>m. threshold \<le> fst (rng_next (rng_skip m rng)))"
proof
  assume "\<exists>y. rng_uniform_for rng n threshold = Some y"
  then obtain y where run: "rng_uniform_for rng n threshold = Some y" ..
  show "\<exists>m. threshold \<le> fst (rng_next (rng_skip m rng))"
  proof (induct rule: rng_uniform_for.raw_induct[OF _ run])
    case (1 f rng n threshold y)
    show ?case
    proof (cases "threshold \<le> fst (rng_next rng)")
      case True
      then have "threshold \<le> fst (rng_next (rng_skip 0 rng))" by simp
      then show ?thesis ..
    next
      case False
      with 1(2) have "f (snd (rng_next rng)) n threshold = Some y"
        by (auto split: prod.splits)
      from 1(1)[OF this] obtain m
        where "threshold \<le> fst (rng_next (rng_skip m (snd (rng_next rng))))" ..
      then have "threshold \<le> fst (rng_next (rng_skip (Suc m) rng))" by simp
      then show ?thesis ..
    qed
  qed
next
  assume "\<exists>m. threshold \<le> fst (rng_next (rng_skip m rng))"
  then obtain m where "threshold \<le> fst (rng_next (rng_skip m rng))" ..
  then show "\<exists>y. rng_uniform_for rng n threshold = Some y"
  proof (induction m arbitrary: rng)
    case 0
    then show ?case
      by (subst rng_uniform_for.simps) (auto split: prod.splits)
  next
    case (Suc m)
    from Suc.IH[of "snd (rng_next rng)"] Suc.prems
    obtain y where "rng_uniform_for (snd (rng_next rng)) n threshold = Some y" by auto
    then show ?case
      by (subst rng_uniform_for.simps) (auto split: prod.splits)
  qed
qed

text \<open>
  The all-zero state is a fixed point of \<^verbatim>\<open>rng_next\<close> with output 0, so from it a draw
  with a non-zero threshold rejects every output and never returns.
\<close>

lemma rng_next_zero_state: "rng_next zero_state = (0, zero_state)"
  by (simp add: rng_next_def zero_state_def rotl_def Let_def)

lemma rng_uniform_for_zero_state_aux:
  assumes run: "rng_uniform_for rng n threshold = Some y"
  shows "rng = zero_state \<longrightarrow> threshold = 0"
proof (induct rule: rng_uniform_for.raw_induct[OF _ run])
  case (1 f rng n threshold y)
  show ?case
  proof
    assume z: "rng = zero_state"
    show "threshold = 0"
    proof (cases "threshold \<le> 0")
      case True
      then show ?thesis by simp
    next
      case False
      with 1(2) z have "f zero_state n threshold = Some y"
        by (simp add: rng_next_zero_state)
      from 1(1)[OF this] show ?thesis by simp
    qed
  qed
qed

lemma rng_uniform_for_zero_state:
  "threshold \<noteq> 0 \<Longrightarrow> rng_uniform_for zero_state n threshold = None"
  using rng_uniform_for_zero_state_aux[of zero_state n threshold]
  by (cases "rng_uniform_for zero_state n threshold") auto

text \<open>
  C10 (as amended). For every \<open>n \<ge> 1\<close> (the length of the array) and every generator
  state, \<^verbatim>\<open>rng_shuffle\<close> never touches an index outside \<open>[0, n)\<close>, whether or not it
  returns, and a run that returns has made exactly \<open>n - 1\<close> uniform draws and kept the
  length. A draw with a non-zero bound \<open>k\<close> returns exactly when some later output of the
  generator is at or above the threshold \<open>2\<^sup>6\<^sup>4 mod k\<close>, and the value it returns is below
  \<open>k\<close>. For \<open>n = 0\<close> the counter starts at \<open>2\<^sup>6\<^sup>4 - 1\<close> and the first access, at that index,
  is out of bounds.
\<close>

theorem rng_shuffle_in_bounds:
  "(n \<noteq> 0 \<and> unat n = length arr \<longrightarrow>
      (\<forall>e. rng_shuffle rng arr n \<noteq> Some (Inl e)) \<and>
      (\<forall>arr' rng' draws. rng_shuffle rng arr n = Some (Inr (arr', rng', draws)) \<longrightarrow>
          draws = unat n - 1 \<and> length arr' = length arr)) \<and>
   (\<forall>k r rng'. k \<noteq> 0 \<and> rng_uniform rng k = Some (r, rng') \<longrightarrow> r < k) \<and>
   (\<forall>k. k \<noteq> 0 \<longrightarrow>
      ((\<exists>y. rng_uniform rng k = Some y) \<longleftrightarrow>
       (\<exists>m. (- k) mod k \<le> fst (rng_next (rng_skip m rng))))) \<and>
   rng_shuffle rng [] 0 = Some (Inl (Out_of_bounds (2 ^ 64 - 1)))"
proof (intro conjI impI allI)
  assume n: "n \<noteq> 0 \<and> unat n = length arr"
  then have "0 < n" by (simp add: word_greater_zero_iff)
  then have "0 < unat n" by (simp add: unat_gt_0)
  then have i: "unat (n - 1) < length arr"
    using n by (simp add: unat_minus_one)
  have len: "length arr < 2 ^ 64"
    using n unsigned_less[of n, where 'a = nat] by simp
  note safe = rng_shuffle_for_safe[OF i len, where rng = rng and draws = 0]
  { fix e
    from safe show "rng_shuffle rng arr n \<noteq> Some (Inl e)"
      by (auto simp: rng_shuffle_def) }
  { fix arr' rng' draws
    assume "rng_shuffle rng arr n = Some (Inr (arr', rng', draws))"
    with safe have "draws = unat (n - 1)" "length arr' = length arr"
      by (auto simp: rng_shuffle_def)
    with \<open>0 < n\<close> show "draws = unat n - 1" and "length arr' = length arr"
      by (simp_all add: unat_minus_one unat_gt_0) }
next
  fix k r rng'
  assume "k \<noteq> 0 \<and> rng_uniform rng k = Some (r, rng')"
  then show "r < k" by (auto dest: rng_uniform_bound)
next
  fix k :: u64
  assume "k \<noteq> 0"
  then show "(\<exists>y. rng_uniform rng k = Some y) \<longleftrightarrow>
       (\<exists>m. (- k) mod k \<le> fst (rng_next (rng_skip m rng)))"
    using rng_uniform_for_returns_iff[of rng k "(- k) mod k"]
    by (simp add: rng_uniform_def)
next
  show "rng_shuffle rng [] 0 = Some (Inl (Out_of_bounds (2 ^ 64 - 1)))"
    by (simp add: rng_shuffle_def rng_shuffle_for.simps rng_uniform_def
        unsigned_minus_1_eq_mask mask_eq_exp_minus_1 word_greater_zero_iff)
qed


theorem rng_shuffle_in_bounds_witness:
  "(3 :: u64) \<noteq> 0 \<and> unat (3 :: u64) = length [10, 20, 30 :: i32] \<and>
   (\<forall>e. rng_shuffle (rng_seed 42) [10, 20, 30] 3 \<noteq> Some (Inl e)) \<and>
   rng_shuffle (rng_seed 42) [10, 20, 30] 3
     = Some (Inr ([20, 30, 10],
          \<lparr>s0 = 11321038696294968131, s1 = 2570630787131477249,
             s2 = 11331932227193638341, s3 = 8279914124659105243\<rparr>, 2)) \<and>
   2 = unat (3 :: u64) - 1 \<and>
   rng_uniform (rng_seed 42) 3
     = Some (0, \<lparr>s0 = 14781993660996615170, s1 = 15162131492471177412,
                  s2 = 4387123674275312071, s3 = 9390829987253819269\<rparr>) \<and>
   (0 :: u64) < 3 \<and>
   (\<exists>m. (- 3 :: u64) mod 3 \<le> fst (rng_next (rng_skip m (rng_seed 42))))"
proof -
  have pre: "(3 :: u64) \<noteq> 0 \<and> unat (3 :: u64) = length [10, 20, 30 :: i32]"
    by simp
  have run: "rng_shuffle (rng_seed 42) [10, 20, 30] 3
     = Some (Inr ([20, 30, 10],
          \<lparr>s0 = 11321038696294968131, s1 = 2570630787131477249,
             s2 = 11331932227193638341, s3 = 8279914124659105243\<rparr>, 2))"
    by code_simp
  have draw: "rng_uniform (rng_seed 42) 3
     = Some (0, \<lparr>s0 = 14781993660996615170, s1 = 15162131492471177412,
                  s2 = 4387123674275312071, s3 = 9390829987253819269\<rparr>)"
    by code_simp
  note inst = rng_shuffle_in_bounds[of 3 "[10, 20, 30]" "rng_seed 42"]
  from inst[THEN conjunct1, THEN mp, OF pre]
  have safe: "\<forall>e. rng_shuffle (rng_seed 42) [10, 20, 30] 3 \<noteq> Some (Inl e)"
    by (rule conjunct1)
  have two: "2 = unat (3 :: u64) - 1" by simp
  from inst[THEN conjunct2, THEN conjunct1, THEN spec, THEN spec, THEN spec, THEN mp,
      OF conjI, OF pre[THEN conjunct1] draw]
  have below: "(0 :: u64) < 3" .
  from inst[THEN conjunct2, THEN conjunct2, THEN conjunct1, THEN spec, THEN mp,
      OF pre[THEN conjunct1]] draw
  have accepted: "\<exists>m. (- 3 :: u64) mod 3 \<le> fst (rng_next (rng_skip m (rng_seed 42)))"
    by blast
  show ?thesis
    by (intro conjI pre[THEN conjunct1] pre[THEN conjunct2] safe run two draw below accepted)
qed

text \<open>
  C10 as stated (every \<open>n \<ge> 1\<close>, whatever the generator state; a draw always returns a value
  at most \<open>i\<close>; exactly \<open>n - 1\<close> draws) fails from the all-zero state with \<open>n = 3\<close>: the
  threshold of the first draw is \<open>2\<^sup>6\<^sup>4 mod 3 = 1\<close>, every output is 0, and neither the draw
  nor the shuffle returns.
\<close>

theorem rng_shuffle_zero_state:
  "rng_uniform zero_state 3 = None \<and> rng_shuffle zero_state [10, 20, 30] 3 = None"
proof -
  have t: "(- 3 :: u64) mod 3 = 1" by simp
  have u: "rng_uniform zero_state 3 = None"
    by (simp add: rng_uniform_def t rng_uniform_for_zero_state)
  have "rng_shuffle zero_state [10, 20, 30] 3 = None"
    by (simp add: rng_shuffle_def rng_shuffle_for.simps[of zero_state _ 2] u)
  with u show ?thesis by simp
qed

subsection \<open>Permutation rows\<close>













section \<open>Properties of binary64 arithmetic\<close>

lemma round_half_even_error: "\<bar>of_int (round_half_even q) - q\<bar> \<le> 1 / 2"
  unfolding round_half_even_def Let_def by (auto simp: abs_le_iff)

lemma round_half_even_of_int [simp]: "round_half_even (of_int k) = k"
  by (simp add: round_half_even_def)

lemma exponent64_bounds:
  assumes "0 < x"
  shows "- 1022 \<le> exponent64 x"
    and "exponent64 x = - 1022 \<or> 2 powi exponent64 x \<le> x"
    and "x < 2 powi (exponent64 x + 1)"
proof -
  show "- 1022 \<le> exponent64 x" by (simp add: exponent64_def)
  define e0 where "e0 = (if 1 \<le> x then bitlen \<lfloor>x\<rfloor> - 1 else - bitlen (\<lceil>1 / x\<rceil> - 1))"
  have e: "exponent64 x = max (- 1022) e0" by (simp add: exponent64_def e0_def)
  have both: "2 powi e0 \<le> x \<and> x < 2 powi (e0 + 1)"
  proof (cases "1 \<le> x")
    case True
    then have pos: "0 < \<lfloor>x\<rfloor>" by linarith
    from bitlen_bounds[OF pos]
    have lo: "2 ^ nat (bitlen \<lfloor>x\<rfloor> - 1) \<le> \<lfloor>x\<rfloor>" and hi: "\<lfloor>x\<rfloor> < 2 ^ nat (bitlen \<lfloor>x\<rfloor>)" by simp_all
    from pos have b1: "1 \<le> bitlen \<lfloor>x\<rfloor>" by (auto simp: bitlen_alt_def)
    from lo have "2 ^ nat (bitlen \<lfloor>x\<rfloor> - 1) \<le> x" by (simp add: le_floor_iff)
    moreover from hi have "x < 2 ^ nat (bitlen \<lfloor>x\<rfloor>)" by (simp add: floor_less_iff)
    ultimately show ?thesis using True b1 by (simp add: e0_def power_int_def)
  next
    case False
    define y where "y = 1 / x"
    from False assms have y: "1 < y" by (simp add: y_def)
    define c where "c = \<lceil>y\<rceil> - 1"
    from y have pos: "0 < c" unfolding c_def by linarith
    from bitlen_bounds[OF pos]
    have lo: "2 ^ nat (bitlen c - 1) \<le> c" and hi: "c < 2 ^ nat (bitlen c)" by simp_all
    from pos have b1: "1 \<le> bitlen c" by (auto simp: bitlen_alt_def)
    from lo have "2 ^ nat (bitlen c - 1) < \<lceil>y\<rceil>" by (simp add: c_def)
    then have l: "2 ^ nat (bitlen c - 1) < y" by (simp add: less_ceiling_iff)
    from hi have "\<lceil>y\<rceil> \<le> 2 ^ nat (bitlen c)" by (simp add: c_def)
    then have h: "y \<le> 2 ^ nat (bitlen c)" by (simp add: ceiling_le_iff)
    have e0: "e0 = - bitlen c" using False by (simp add: e0_def c_def y_def)
    have "(2 :: real) powi e0 = 1 / 2 ^ nat (bitlen c)"
      using b1 by (simp add: e0 power_int_def inverse_eq_divide power_one_over)
    also have "\<dots> \<le> x" using h assms by (simp add: y_def field_simps)
    finally have A: "2 powi e0 \<le> x" .
    have "x < 1 / 2 ^ nat (bitlen c - 1)" using l assms by (simp add: y_def field_simps)
    also have "\<dots> = (2 :: real) powi (e0 + 1)"
    proof (cases "bitlen c = 1")
      case True
      then show ?thesis by (simp add: e0)
    next
      case False
      with b1 have "e0 + 1 < 0" by (simp add: e0)
      moreover have "nat (- (e0 + 1)) = nat (bitlen c - 1)" by (simp add: e0)
      ultimately show ?thesis by (simp add: power_int_def inverse_eq_divide power_one_over)
    qed
    finally show ?thesis using A by simp
  qed
  show "exponent64 x = - 1022 \<or> 2 powi exponent64 x \<le> x"
    using both by (auto simp: e max_def)
  have "2 powi (e0 + 1) \<le> (2 :: real) powi (max (- 1022) e0 + 1)"
    by (rule power_int_increasing) simp_all
  with both show "x < 2 powi (exponent64 x + 1)" by (simp add: e)
qed


lemma rnd64_zero [simp]: "rnd64 0 = 0"
  by (simp add: rnd64_def)

lemma rnd64_core:
  assumes "x \<noteq> 0"
  shows "\<bar>rnd64 x - x\<bar> \<le> 2 powi (exponent64 \<bar>x\<bar> - 52) / 2"
proof -
  define u :: real where "u = 2 powi (exponent64 \<bar>x\<bar> - 52)"
  define q where "q = \<bar>x\<bar> / u"
  have u: "0 < u" by (simp add: u_def)
  have x: "x = sgn x * q * u" using u by (simp add: q_def sgn_mult_abs)
  have r: "rnd64 x = sgn x * of_int (round_half_even q) * u"
    using assms by (simp add: rnd64_def Let_def u_def q_def)
  have "rnd64 x - x = sgn x * (of_int (round_half_even q) - q) * u"
    by (subst r, subst (2) x) (simp add: algebra_simps)
  then have "\<bar>rnd64 x - x\<bar> = \<bar>of_int (round_half_even q) - q\<bar> * u"
    using assms u by (simp add: abs_mult)
  also have "\<dots> \<le> (1 / 2) * u"
    using round_half_even_error[of q] u by (intro mult_right_mono) simp_all
  finally show ?thesis by (simp add: u_def)
qed

lemma ulp_split: "(2 :: real) powi (e - 52) = 2 powi e / 2 ^ 52"
  by (simp add: power_int_diff)

lemma rnd64_error:
  assumes "2 powi (- 1022) \<le> \<bar>x\<bar>"
  shows "\<bar>rnd64 x - x\<bar> \<le> \<bar>x\<bar> / 2 ^ 53"
proof -
  have pos: "0 < \<bar>x\<bar>"
    using assms by (rule less_le_trans[rotated]) simp
  then have nz: "x \<noteq> 0" by simp
  from exponent64_bounds(2)[OF pos] assms
  have "2 powi exponent64 \<bar>x\<bar> \<le> \<bar>x\<bar>" by auto
  then have "2 powi (exponent64 \<bar>x\<bar> - 52) / 2 \<le> \<bar>x\<bar> / 2 ^ 53"
    by (simp add: ulp_split field_simps)
  with rnd64_core[OF nz] show ?thesis by simp
qed

lemma rnd64_error_any: "\<bar>rnd64 x - x\<bar> \<le> (\<bar>x\<bar> + 2 powi (- 1022)) / 2 ^ 53"
proof (cases "x = 0")
  case True
  then show ?thesis by simp
next
  case False
  then have pos: "0 < \<bar>x\<bar>" by simp
  from exponent64_bounds(2)[OF pos]
  have "2 powi exponent64 \<bar>x\<bar> \<le> \<bar>x\<bar> + 2 powi (- 1022)"
  proof
    assume "exponent64 \<bar>x\<bar> = - 1022"
    then show ?thesis by simp
  next
    assume "2 powi exponent64 \<bar>x\<bar> \<le> \<bar>x\<bar>"
    moreover have "0 \<le> (2 :: real) powi (- 1022)" by simp
    ultimately show ?thesis by linarith
  qed
  then have "2 powi (exponent64 \<bar>x\<bar> - 52) / 2 \<le> (\<bar>x\<bar> + 2 powi (- 1022)) / 2 ^ 53"
    by (simp add: ulp_split field_simps)
  with rnd64_core[OF False] show ?thesis by simp
qed

lemma rnd64_exact:
  assumes m: "\<bar>m\<bar> < 2 ^ 53" and a: "- 1074 \<le> a"
  shows "rnd64 (of_int m * 2 powi a) = of_int m * 2 powi a"
proof (cases "m = 0")
  case True
  then show ?thesis by simp
next
  case False
  define x :: real where "x = of_int m * 2 powi a"
  have nz: "x \<noteq> 0" using False by (simp add: x_def)
  have ax: "\<bar>x\<bar> = of_int \<bar>m\<bar> * 2 powi a" by (simp add: x_def abs_mult)
  define e where "e = exponent64 \<bar>x\<bar>"
  have pos: "0 < \<bar>x\<bar>" using nz by simp
  have le: "e \<le> a + 52"
  proof (rule ccontr)
    assume "\<not> e \<le> a + 52"
    then have big: "a + 53 \<le> e" by simp
    with a have "e \<noteq> - 1022" by simp
    with exponent64_bounds(2)[OF pos] have "2 powi e \<le> \<bar>x\<bar>" by (simp add: e_def)
    moreover have "\<bar>x\<bar> < 2 ^ 53 * 2 powi a"
      unfolding ax using m by (intro mult_strict_right_mono) (simp_all add: of_int_less_iff[symmetric] del: of_int_less_iff)
    moreover have "(2 :: real) ^ 53 * 2 powi a = 2 powi (a + 53)"
      by (simp add: power_int_add)
    moreover have "(2 :: real) powi (a + 53) \<le> 2 powi e"
      using big by (intro power_int_increasing) simp_all
    ultimately show False by simp
  qed
  define k where "k = nat (a - e + 52)"
  have k: "a - (e - 52) = int k" using le by (simp add: k_def)
  have "\<bar>x\<bar> / 2 powi (e - 52) = of_int \<bar>m\<bar> * 2 powi (a - (e - 52))"
    unfolding ax by (simp add: power_int_diff)
  also have "\<dots> = of_int (\<bar>m\<bar> * 2 ^ k)"
    by (simp add: k)
  finally have q: "\<bar>x\<bar> / 2 powi (e - 52) = of_int (\<bar>m\<bar> * 2 ^ k)" .
  have rq: "round_half_even (\<bar>x\<bar> / 2 powi (e - 52)) = \<bar>m\<bar> * 2 ^ k"
    by (simp only: q round_half_even_of_int)
  have "rnd64 x = sgn x * of_int (\<bar>m\<bar> * 2 ^ k) * 2 powi (e - 52)"
    unfolding rnd64_def Let_def e_def[symmetric] rq using nz by simp
  also have "\<dots> = sgn x * (\<bar>x\<bar> / 2 powi (e - 52)) * 2 powi (e - 52)"
    by (simp only: q)
  also have "\<dots> = x" by (simp add: sgn_mult_abs)
  finally show ?thesis by (simp add: x_def)
qed

lemma rnd64_of_int: "\<bar>m\<bar> < 2 ^ 53 \<Longrightarrow> rnd64 (of_int m) = of_int m"
  using rnd64_exact[of m 0] by simp

lemma rnd64_of_nat: "n < 2 ^ 53 \<Longrightarrow> rnd64 (of_nat n) = of_nat n"
  using rnd64_of_int[of "int n"] by simp

lemma to_double_zero [simp]: "to_double 0 = Finite 0"
  by (simp add: to_double_def)

lemma lit_zero [simp]: "lit 0 = Finite 0"
  by (simp add: lit_def)

lemma rnd64_bounds:
  assumes "1 \<le> x"
  shows "x / 2 \<le> rnd64 x" and "rnd64 x \<le> 2 * x"
proof -
  have "(2 :: real) powi (- 1022) \<le> 1"
    by (simp add: power_int_minus inverse_eq_divide field_simps)
  with assms have "2 powi (- 1022) \<le> \<bar>x\<bar>" by linarith
  from rnd64_error[OF this] assms have e: "\<bar>rnd64 x - x\<bar> \<le> x / 2 ^ 53" by simp
  have "rnd64 x - x \<le> x / 2 ^ 53"
    using e by (rule order_trans[OF abs_ge_self])
  moreover have "- (rnd64 x - x) \<le> x / 2 ^ 53"
    using e by (rule order_trans[OF abs_ge_minus_self])
  moreover have "x / 2 ^ 53 \<le> x / 2" using assms by (intro divide_left_mono) simp_all
  ultimately show "x / 2 \<le> rnd64 x" and "rnd64 x \<le> 2 * x" using assms by linarith+
qed

lemma to_double_finite:
  assumes "1 \<le> x" and "x \<le> 2 ^ 1000"
  shows "to_double x = Finite (rnd64 x)"
proof -
  from rnd64_bounds[OF assms(1)] assms
  have "0 < rnd64 x" and "rnd64 x \<le> 2 * 2 ^ 1000" by linarith+
  moreover have "(2 :: real) * 2 ^ 1000 < 2 ^ 1024" by simp
  ultimately have "rnd64 x < 2 ^ 1024" "- (2 ^ 1024) < rnd64 x" by linarith+
  then show ?thesis by (simp add: to_double_def Let_def)
qed

lemma of_u64_positive:
  assumes "w \<noteq> 0"
  shows "\<exists>r. of_u64 w = Finite r \<and> 0 < r"
proof -
  from assms have "0 < unat w" by (simp add: unat_gt_0)
  then have one: "1 \<le> real (unat w)" by linarith
  have "unat w < 2 ^ 64" using unsigned_less[of w, where 'a = nat] by simp
  then have "real (unat w) < 2 ^ 64" by (metis of_nat_less_iff of_nat_numeral of_nat_power)
  moreover have "(2 :: real) ^ 64 \<le> 2 ^ 1000" by simp
  ultimately have "real (unat w) \<le> 2 ^ 1000" by linarith
  from to_double_finite[OF one this] rnd64_bounds(1)[OF one] one
  show ?thesis by (auto simp: of_u64_def)
qed

lemma of_u64_cases: "of_u64 w = Finite 0 \<or> (\<exists>r. of_u64 w = Finite r \<and> 0 < r)"
proof (cases "w = 0")
  case True
  then show ?thesis by (simp add: of_u64_def)
next
  case False
  then show ?thesis by (simp add: of_u64_positive)
qed

lemma fsub_self_u64 [simp]: "fsub (of_u64 x) (of_u64 x) = Finite 0"
  using of_u64_cases[of x] by (auto simp: fsub_def fadd_def fneg_def)

lemma fadd_zero_zero [simp]: "fadd (Finite 0) (Finite 0) = Finite 0"
  by (simp add: fadd_def)

lemma fsub_zero_zero [simp]: "fsub (Finite 0) (Finite 0) = Finite 0"
  by (simp add: fsub_def fneg_def)

lemma fmul_zero_zero [simp]: "fmul (Finite 0) (Finite 0) = Finite 0"
  by (simp add: fmul_def)

lemma fdiv_zero_positive: "0 < r \<Longrightarrow> fdiv (Finite 0) (Finite r) = Finite 0"
  by (simp add: fdiv_def)

lemma fdiv_zero_cases: "fdiv (Finite 0) b = NaN \<or> fdiv (Finite 0) b = Finite 0"
  by (cases b) (simp_all add: fdiv_def)

lemma fdiv_zero_zero [simp]: "fdiv (Finite 0) (Finite 0) = NaN"
  by (simp add: fdiv_def)

lemma nan_propagates [simp]:
  "fdiv NaN b = NaN" "fdiv a NaN = NaN" "fadd NaN b = NaN" "fadd a NaN = NaN"
  "fsub NaN b = NaN" "fsub a NaN = NaN" "fmul NaN b = NaN" "fmul a NaN = NaN"
  "fsqrt NaN = NaN" "fabs NaN = NaN" "ferf erf NaN = NaN"
  by (simp_all add: fdiv_def fadd_def fsub_def fmul_def fsqrt_def fabs_def ferf_def fneg_def)

lemma fsqrt_zero [simp]: "fsqrt (Finite 0) = Finite 0"
  by (simp add: fsqrt_def)


lemma to_double_of_int:
  assumes "\<bar>m\<bar> < 2 ^ 53"
  shows "to_double (of_int m) = Finite (of_int m)"
proof -
  have "\<bar>real_of_int m\<bar> < 2 ^ 53"
    using assms by (metis of_int_abs of_int_less_iff of_int_numeral of_int_power)
  moreover have "(2 :: real) ^ 53 < 2 ^ 1024" by simp
  ultimately have "real_of_int m < 2 ^ 1024" "- (2 ^ 1024) < real_of_int m" by linarith+
  then show ?thesis by (simp add: to_double_def Let_def rnd64_of_int[OF assms])
qed

lemma to_double_numeral [simp]:
  "numeral k < (2 :: int) ^ 53 \<Longrightarrow> to_double (numeral k) = Finite (numeral k)"
  "numeral k < (2 :: int) ^ 53 \<Longrightarrow> to_double (- numeral k) = Finite (- numeral k)"
  "to_double 1 = Finite 1"
  using to_double_of_int[of "numeral k"] to_double_of_int[of "- numeral k"] to_double_of_int[of 1]
  by simp_all


text \<open>A quotient of an integer below \<open>2\<^sup>5\<^sup>3\<close> by a power of two is a double.\<close>

lemma to_double_dyadic:
  assumes "\<bar>m\<bar> < 2 ^ 53" and "j \<le> 1074"
  shows "to_double (of_int m / 2 ^ j) = Finite (of_int m / 2 ^ j)"
proof -
  have e: "real_of_int m / 2 ^ j = of_int m * 2 powi (- int j)"
    by (simp add: power_int_minus divide_inverse)
  have r: "rnd64 (real_of_int m / 2 ^ j) = real_of_int m / 2 ^ j"
    unfolding e using assms by (intro rnd64_exact) simp_all
  have "\<bar>real_of_int m\<bar> < 2 ^ 53"
    using assms(1) by (metis of_int_abs of_int_less_iff of_int_numeral of_int_power)
  moreover have "\<bar>real_of_int m / 2 ^ j\<bar> \<le> \<bar>real_of_int m\<bar>"
    by (simp add: abs_divide field_simps) (metis abs_ge_zero mult_left_mono mult.right_neutral one_le_numeral one_le_power)
  moreover have "(2 :: real) ^ 53 < 2 ^ 1024" by simp
  ultimately have "\<bar>real_of_int m / 2 ^ j\<bar> < 2 ^ 1024" by linarith
  then have "real_of_int m / 2 ^ j < 2 ^ 1024" "- (2 ^ 1024) < real_of_int m / 2 ^ j" by linarith+
  then show ?thesis by (simp add: to_double_def Let_def r)
qed

lemma to_double_fractions [simp]:
  "numeral a < (2 :: int) ^ 53 \<Longrightarrow> to_double (numeral a / 4) = Finite (numeral a / 4)"
  "numeral a < (2 :: int) ^ 53 \<Longrightarrow> to_double (numeral a / 16) = Finite (numeral a / 16)"
  "numeral a < (2 :: int) ^ 53 \<Longrightarrow> to_double (numeral a / 64) = Finite (numeral a / 64)"
  using to_double_dyadic[of "numeral a" 2] to_double_dyadic[of "numeral a" 4]
    to_double_dyadic[of "numeral a" 6]
  by simp_all

subsection \<open>Intervals\<close>

lemma finite_in_mono: "finite_in a b d \<Longrightarrow> a' \<le> a \<Longrightarrow> b \<le> b' \<Longrightarrow> finite_in a' b' d"
  by (auto simp: finite_in_def)

lemma finite_in_Finite [simp]: "finite_in a b (Finite r) \<longleftrightarrow> a \<le> r \<and> r \<le> b"
  by (simp add: finite_in_def)

lemma tiny: "(2 :: real) powi (- 1022) \<le> 1 / 2 ^ 20"
proof -
  have "(2 :: real) powi (- 1022) = 1 / 2 ^ 1022"
    by (simp add: power_int_minus inverse_eq_divide)
  also have "\<dots> \<le> 1 / 2 ^ 20"
    by (intro divide_left_mono) simp_all
  finally show ?thesis .
qed

lemma finite_in_to_double:
  assumes "1 / 2 ^ 20 \<le> a" and "a \<le> x" and "x \<le> b" and "b \<le> 2 ^ 1000"
  shows "finite_in (99 / 100 * a) (101 / 100 * b) (to_double x)"
proof -
  have apos: "0 < a" using assms(1) by (rule less_le_trans[rotated]) simp
  then have xpos: "0 < x" using assms(2) by simp
  have "2 powi (- 1022) \<le> \<bar>x\<bar>" using tiny assms(1,2) by simp
  from rnd64_error[OF this] xpos have e: "\<bar>rnd64 x - x\<bar> \<le> x / 2 ^ 53" by simp
  have "x / 2 ^ 53 \<le> x / 100" using xpos by (intro divide_left_mono) simp_all
  with e have e': "\<bar>rnd64 x - x\<bar> \<le> x / 100" by simp
  have "rnd64 x - x \<le> x / 100" using e' by (rule order_trans[OF abs_ge_self])
  moreover have "- (rnd64 x - x) \<le> x / 100" using e' by (rule order_trans[OF abs_ge_minus_self])
  ultimately have lo: "99 / 100 * x \<le> rnd64 x" and hi: "rnd64 x \<le> 101 / 100 * x" by simp_all
  have "99 / 100 * a \<le> 99 / 100 * x" using assms(2) by simp
  with lo have lo': "99 / 100 * a \<le> rnd64 x" by simp
  have "101 / 100 * x \<le> 101 / 100 * b" using assms(3) by simp
  with hi have hi': "rnd64 x \<le> 101 / 100 * b" by simp
  have "101 / 100 * b \<le> 101 / 100 * 2 ^ 1000" using assms(4) by simp
  also have "\<dots> < (2 :: real) ^ 1024" by simp
  finally have "101 / 100 * b < 2 ^ 1024" .
  with hi' have fin: "rnd64 x < 2 ^ 1024" by simp
  from lo' apos have "0 < rnd64 x" by simp
  then have "- (2 ^ 1024) < rnd64 x" by (rule less_trans[rotated]) simp
  with fin have "to_double x = Finite (rnd64 x)" by (simp add: to_double_def Let_def)
  with lo' hi' show ?thesis by simp
qed

lemma finite_in_lit:
  "1 / 2 ^ 20 \<le> c \<Longrightarrow> c \<le> 2 ^ 1000 \<Longrightarrow> finite_in (99 / 100 * c) (101 / 100 * c) (lit c)"
  unfolding lit_def by (rule finite_in_to_double) simp_all

lemma finite_in_of_u64:
  assumes "x \<noteq> 0"
  shows "finite_in (99 / 100 * real (unat x)) (101 / 100 * real (unat x)) (of_u64 x)"
  unfolding of_u64_def
proof (rule finite_in_to_double)
  from assms have "0 < unat x" by (simp add: unat_gt_0)
  then have "1 \<le> real (unat x)" by linarith
  then show "1 / 2 ^ 20 \<le> real (unat x)" by (rule order_trans[rotated]) simp
  have "unat x < 2 ^ 64" using unsigned_less[of x, where 'a = nat] by simp
  then have "real (unat x) < 2 ^ 64" by (metis of_nat_less_iff of_nat_numeral of_nat_power)
  moreover have "(2 :: real) ^ 64 \<le> 2 ^ 1000" by simp
  ultimately show "real (unat x) \<le> 2 ^ 1000" by linarith
qed simp_all

lemma finite_in_fmul:
  assumes "finite_in a b X" and "finite_in c d Y" and "0 < a" and "0 < c"
    and "1 / 2 ^ 20 \<le> a * c" and "b * d \<le> 2 ^ 1000"
  shows "finite_in (99 / 100 * (a * c)) (101 / 100 * (b * d)) (fmul X Y)"
proof -
  from assms(1,2) obtain x y where X: "X = Finite x" "a \<le> x" "x \<le> b"
    and Y: "Y = Finite y" "c \<le> y" "y \<le> d"
    by (auto simp: finite_in_def)
  have "a * c \<le> x * y" using X Y assms(3,4) by (intro mult_mono) simp_all
  moreover have "x * y \<le> b * d" using X Y assms(3,4) by (intro mult_mono) simp_all
  ultimately have "finite_in (99 / 100 * (a * c)) (101 / 100 * (b * d)) (to_double (x * y))"
    using assms(5,6) by (intro finite_in_to_double) simp_all
  then show ?thesis by (simp add: fmul_def X Y)
qed

lemma finite_in_fdiv:
  assumes "finite_in a b X" and "finite_in c d Y" and "0 < a" and "0 < c"
    and "1 / 2 ^ 20 \<le> a / d" and "b / c \<le> 2 ^ 1000"
  shows "finite_in (99 / 100 * (a / d)) (101 / 100 * (b / c)) (fdiv X Y)"
proof -
  from assms(1,2) obtain x y where X: "X = Finite x" "a \<le> x" "x \<le> b"
    and Y: "Y = Finite y" "c \<le> y" "y \<le> d"
    by (auto simp: finite_in_def)
  have ypos: "0 < y" and dpos: "0 < d" using Y assms(4) by simp_all
  have "a / d \<le> x / y" using X Y assms(3,4) ypos by (intro frac_le) simp_all
  moreover have "x / y \<le> b / c" using X Y assms(3,4) by (intro frac_le) simp_all
  ultimately have "finite_in (99 / 100 * (a / d)) (101 / 100 * (b / c)) (to_double (x / y))"
    using assms(5,6) by (intro finite_in_to_double) simp_all
  then show ?thesis using ypos by (simp add: fdiv_def X Y)
qed

lemma finite_in_fsub:
  assumes "finite_in a b X" and "finite_in c d Y"
    and "1 / 2 ^ 20 \<le> a - d" and "b - c \<le> 2 ^ 1000"
  shows "finite_in (99 / 100 * (a - d)) (101 / 100 * (b - c)) (fsub X Y)"
proof -
  from assms(1,2) obtain x y where X: "X = Finite x" "a \<le> x" "x \<le> b"
    and Y: "Y = Finite y" "c \<le> y" "y \<le> d"
    by (auto simp: finite_in_def)
  have "a - d \<le> x - y" "x - y \<le> b - c" using X Y by simp_all
  then have "finite_in (99 / 100 * (a - d)) (101 / 100 * (b - c)) (to_double (x - y))"
    using assms(3,4) by (intro finite_in_to_double) simp_all
  then show ?thesis by (simp add: fsub_def fadd_def fneg_def X Y)
qed

lemma finite_in_pow:
  assumes "pow_accurate pow" and "finite_in a b X" and "finite_in c d Y"
    and "1 \<le> a" and "b \<le> 16" and "real m \<le> c" and "d \<le> real n" and "n \<le> 64"
  shows "finite_in (99 / 100 * a ^ m) (101 / 100 * b ^ n) (pow X Y)"
proof -
  from assms(2,3) obtain x y where X: "X = Finite x" "a \<le> x" "x \<le> b"
    and Y: "Y = Finite y" "c \<le> y" "y \<le> d"
    by (auto simp: finite_in_def)
  have x1: "1 \<le> x" and x16: "x \<le> 16" using X assms(4,5) by simp_all
  have y0: "0 \<le> y" using Y assms(6) of_nat_0_le_iff[of m] by linarith
  have "real n \<le> 64" using assms(8) by simp
  then have y64: "y \<le> 64" using Y assms(7) by linarith
  from assms(1) x1 x16 y0 y64 obtain r where r: "pow (Finite x) (Finite y) = Finite r"
    "99 / 100 * x powr y \<le> r" "r \<le> 101 / 100 * x powr y"
    unfolding pow_accurate_def by blast
  have "a ^ m = a powr real m" using assms(4) by (simp add: powr_realpow)
  also have "\<dots> \<le> x powr real m" using assms(4) X by (intro powr_mono2) simp_all
  also have "\<dots> \<le> x powr y" using x1 Y assms(6) by (intro powr_mono) simp_all
  finally have lo: "a ^ m \<le> x powr y" .
  have "x powr y \<le> x powr real n" using x1 Y assms(7) by (intro powr_mono) simp_all
  also have "\<dots> \<le> b powr real n" using x1 X by (intro powr_mono2) simp_all
  also have "\<dots> = b ^ n" using x1 X by (simp add: powr_realpow)
  finally have hi: "x powr y \<le> b ^ n" .
  from lo hi r(2,3) have "99 / 100 * a ^ m \<le> r" "r \<le> 101 / 100 * b ^ n" by simp_all
  with r(1) show ?thesis by (simp add: X Y)
qed

lemma uint_word_of_int_small:
  "0 \<le> j \<Longrightarrow> j < 2 ^ 64 \<Longrightarrow> uint (word_of_int j :: u64) = j"
  by (simp add: uint_word_of_int take_bit_int_eq_self)

lemma to_u64_in:
  assumes "finite_in a b X" and "0 \<le> a" and "b < 2 ^ 64"
  shows "\<exists>v. to_u64 X = Some v \<and> \<lfloor>a\<rfloor> \<le> uint v \<and> uint v \<le> \<lfloor>b\<rfloor>"
proof -
  from assms(1) obtain r where X: "X = Finite r" "a \<le> r" "r \<le> b" by (auto simp: finite_in_def)
  have r0: "0 \<le> r" and r64: "r < 2 ^ 64" using X assms(2,3) by simp_all
  have f0: "0 \<le> \<lfloor>r\<rfloor>" using r0 by simp
  have "\<lfloor>r\<rfloor> < 2 ^ 64" using r64 by (simp add: floor_less_iff)
  with f0 have u: "uint (word_of_int \<lfloor>r\<rfloor> :: u64) = \<lfloor>r\<rfloor>" by (rule uint_word_of_int_small)
  have "to_u64 X = Some (word_of_int \<lfloor>r\<rfloor>)" using r0 r64 by (simp add: to_u64_def X)
  moreover have "\<lfloor>a\<rfloor> \<le> \<lfloor>r\<rfloor>" "\<lfloor>r\<rfloor> \<le> \<lfloor>b\<rfloor>" using X(2,3) by (simp_all add: floor_mono)
  ultimately show ?thesis using u by simp
qed

lemma to_u64_ffloor_in:
  assumes "finite_in a b X" and "0 \<le> a" and "b < 2 ^ 64"
  shows "\<exists>v. to_u64 (ffloor X) = Some v \<and> \<lfloor>a\<rfloor> \<le> uint v \<and> uint v \<le> \<lfloor>b\<rfloor>"
proof -
  from assms(1) obtain r where X: "X = Finite r" "a \<le> r" "r \<le> b" by (auto simp: finite_in_def)
  have r0: "0 \<le> r" and r64: "r < 2 ^ 64" using X assms(2,3) by simp_all
  have f0: "0 \<le> \<lfloor>r\<rfloor>" using r0 by simp
  have f64: "\<lfloor>r\<rfloor> < 2 ^ 64" using r64 by (simp add: floor_less_iff)
  with f0 have u: "uint (word_of_int \<lfloor>r\<rfloor> :: u64) = \<lfloor>r\<rfloor>" by (rule uint_word_of_int_small)
  have "finite_in 0 (2 ^ 64 - 1) (Finite (of_int \<lfloor>r\<rfloor>))"
    using f0 f64 by simp
  have z0: "0 \<le> real_of_int \<lfloor>r\<rfloor>" using f0 by simp
  have "real_of_int \<lfloor>r\<rfloor> \<le> r" by simp
  with r64 have z64: "real_of_int \<lfloor>r\<rfloor> < 2 ^ 64" by linarith
  from z0 have zm: "- 1 < real_of_int \<lfloor>r\<rfloor>" by linarith
  have "to_u64 (ffloor X) = Some (word_of_int \<lfloor>r\<rfloor>)"
    using z0 z64 zm by (simp add: to_u64_def ffloor_def X)
  moreover have "\<lfloor>a\<rfloor> \<le> \<lfloor>r\<rfloor>" "\<lfloor>r\<rfloor> \<le> \<lfloor>b\<rfloor>" using X(2,3) by (simp_all add: floor_mono)
  ultimately show ?thesis using u by simp
qed

lemma to_u64_fceil_in:
  assumes "finite_in a b X" and "0 \<le> a" and "b \<le> 2 ^ 64 - 1"
  shows "\<exists>v. to_u64 (fceil X) = Some v \<and> \<lceil>a\<rceil> \<le> uint v \<and> uint v \<le> \<lceil>b\<rceil>"
proof -
  from assms(1) obtain r where X: "X = Finite r" "a \<le> r" "r \<le> b" by (auto simp: finite_in_def)
  have r0: "0 \<le> r" using X assms(2) by simp
  have c0: "0 \<le> \<lceil>r\<rceil>" using r0 by (simp add: le_ceiling_iff)
  have "r \<le> 2 ^ 64 - 1" using X(3) assms(3) by simp
  then have "\<lceil>r\<rceil> \<le> 2 ^ 64 - 1" by (simp add: ceiling_le_iff)
  then have c64: "\<lceil>r\<rceil> < 2 ^ 64" by simp
  with c0 have u: "uint (word_of_int \<lceil>r\<rceil> :: u64) = \<lceil>r\<rceil>" by (rule uint_word_of_int_small)
  have z0: "0 \<le> real_of_int \<lceil>r\<rceil>" using c0 by simp
  have z64: "real_of_int \<lceil>r\<rceil> < 2 ^ 64"
    using c64 by (metis of_int_less_iff of_int_numeral of_int_power)
  from z0 have zm: "- 1 < real_of_int \<lceil>r\<rceil>" by linarith
  have "to_u64 (fceil X) = Some (word_of_int \<lceil>r\<rceil>)"
    using z0 z64 zm by (simp add: to_u64_def fceil_def X)
  moreover have "\<lceil>a\<rceil> \<le> \<lceil>r\<rceil>" "\<lceil>r\<rceil> \<le> \<lceil>b\<rceil>" using X(2,3) by (simp_all add: ceiling_mono)
  ultimately show ?thesis using u by simp
qed

section \<open>Properties of the generators\<close>

subsection \<open>Appending a gap\<close>

lemma push_gap_simps:
  "num_gaps (push_gap seq g) = Suc (num_gaps seq)"
  "length (gaps (push_gap seq g)) = length (gaps seq)"
  "name (push_gap seq g) = name seq"
  by (simp_all add: push_gap_def)

lemma wf_seq_restart: "wf_seq seq \<Longrightarrow> wf_seq (seq\<lparr>name := nm, num_gaps := 0\<rparr>)"
  by (simp add: wf_seq_def)

lemma last_gap_push:
  "num_gaps seq < length (gaps seq) \<Longrightarrow> last_gap (push_gap seq g) = g"
  by (simp add: last_gap_def push_gap_def)

lemma valid_up_to_first:
  assumes "wf_seq seq" and "num_gaps seq = 0" and "1 \<le> max_gap"
  shows "valid_up_to max_gap (push_gap seq 1)"
  using assms
  by (auto simp: valid_up_to_def wf_seq_def seq_invariants_def push_gap_def MAX_GAPS_def)

lemma valid_up_to_push:
  assumes "valid_up_to max_gap seq" and "num_gaps seq < MAX_GAPS"
    and "last_gap seq < g" and "g \<le> max_gap"
  shows "valid_up_to max_gap (push_gap seq g)"
proof -
  from assms(1) have wf: "length (gaps seq) = MAX_GAPS" and pos: "0 < num_gaps seq"
    and one: "gaps seq ! 0 = 1"
    and nz: "\<forall>i < num_gaps seq. gaps seq ! i \<noteq> 0"
    and inc: "\<forall>i < num_gaps seq. 0 < i \<longrightarrow> gaps seq ! (i - 1) < gaps seq ! i"
    and le: "\<forall>i < num_gaps seq. gaps seq ! i \<le> max_gap"
    by (auto simp: valid_up_to_def wf_seq_def seq_invariants_def)
  let ?n = "num_gaps seq"
  let ?gs = "(gaps seq)[?n := g]"
  have old: "?gs ! i = gaps seq ! i" if "i < ?n" for i
    using that by simp
  have new: "?gs ! ?n = g"
    using assms(2) wf by simp
  from assms(3) have gnz: "g \<noteq> 0"
    by (auto simp: word_greater_zero_iff[symmetric] dest: le_less_trans[OF word_zero_le])
  have "wf_seq (push_gap seq g)"
    using wf assms(2) by (simp add: wf_seq_def push_gap_def)
  moreover have "seq_invariants (push_gap seq g)"
  proof -
    have "?gs ! 0 = 1" using pos one old by simp
    moreover have "\<forall>i < Suc ?n. ?gs ! i \<noteq> 0"
    proof (intro allI impI)
      fix i assume "i < Suc ?n"
      then show "?gs ! i \<noteq> 0"
        using nz old[of i] new gnz by (cases "i = ?n") auto
    qed
    moreover have "\<forall>i < Suc ?n. 0 < i \<longrightarrow> ?gs ! (i - 1) < ?gs ! i"
    proof (intro allI impI)
      fix i assume i: "i < Suc ?n" "0 < i"
      show "?gs ! (i - 1) < ?gs ! i"
      proof (cases "i = ?n")
        case True
        with i pos assms(3) old[of "?n - 1"] new show ?thesis
          by (simp add: last_gap_def)
      next
        case False
        with i inc old[of i] old[of "i - 1"] show ?thesis by auto
      qed
    qed
    ultimately show ?thesis
      by (simp add: seq_invariants_def push_gap_def)
  qed
  moreover have "\<forall>i < num_gaps (push_gap seq g). gaps (push_gap seq g) ! i \<le> max_gap"
  proof -
    have "\<forall>i < Suc ?n. ?gs ! i \<le> max_gap"
    proof (intro allI impI)
      fix i assume "i < Suc ?n"
      then show "?gs ! i \<le> max_gap"
        using le old[of i] new assms(4) by (cases "i = ?n") auto
    qed
    then show ?thesis by (simp add: push_gap_def)
  qed
  ultimately show ?thesis by (simp add: valid_up_to_def)
qed

lemma valid_up_to_wf: "valid_up_to max_gap seq \<Longrightarrow> length (gaps seq) = MAX_GAPS \<and> 0 < num_gaps seq"
  by (simp add: valid_up_to_def wf_seq_def seq_invariants_def)

lemma valid_up_to_last: "valid_up_to max_gap seq \<Longrightarrow> last_gap seq \<le> max_gap"
  by (simp add: valid_up_to_def wf_seq_def seq_invariants_def last_gap_def)


subsection \<open>Copying the base table\<close>

lemma copy_base_valid:
  "valid_up_to max_gap seq \<Longrightarrow> sorted_wrt (<) (last_gap seq # bs) \<Longrightarrow>
   num_gaps seq + length bs \<le> MAX_GAPS \<Longrightarrow>
   valid_up_to max_gap (copy_base bs max_gap seq)"
proof (induction bs arbitrary: seq)
  case Nil
  then show ?case by simp
next
  case (Cons b bs)
  show ?case
  proof (cases "b \<le> max_gap")
    case False
    with Cons.prems(1) show ?thesis by simp
  next
    case True
    from Cons.prems(3) have room: "num_gaps seq < MAX_GAPS" by simp
    from Cons.prems(2) have lt: "last_gap seq < b" by simp
    have v: "valid_up_to max_gap (push_gap seq b)"
      by (rule valid_up_to_push[OF Cons.prems(1) room lt True])
    from valid_up_to_wf[OF Cons.prems(1)] room
    have "last_gap (push_gap seq b) = b" by (simp add: last_gap_push)
    with Cons.prems(2) have s: "sorted_wrt (<) (last_gap (push_gap seq b) # bs)" by simp
    from Cons.prems(3) have "num_gaps (push_gap seq b) + length bs \<le> MAX_GAPS"
      by (simp add: push_gap_simps)
    from Cons.IH[OF v s this] True show ?thesis by simp
  qed
qed

lemma copy_base_first:
  assumes "wf_seq seq" and "1 \<le> max_gap" and "sorted_wrt (<) (1 # bs)"
    and "Suc (length bs) \<le> MAX_GAPS"
  shows "valid_up_to max_gap (copy_base (1 # bs) max_gap (seq\<lparr>name := nm, num_gaps := 0\<rparr>))"
proof -
  let ?s = "seq\<lparr>name := nm, num_gaps := 0\<rparr>"
  have wf: "wf_seq ?s" by (rule wf_seq_restart[OF assms(1)])
  have v: "valid_up_to max_gap (push_gap ?s 1)"
    by (rule valid_up_to_first[OF wf _ assms(2)]) simp
  from wf have "last_gap (push_gap ?s 1) = 1"
    by (intro last_gap_push) (simp add: wf_seq_def MAX_GAPS_def)
  with assms(3) have s: "sorted_wrt (<) (last_gap (push_gap ?s 1) # bs)" by simp
  from assms(4) have "num_gaps (push_gap ?s 1) + length bs \<le> MAX_GAPS"
    by (simp add: push_gap_simps)
  from copy_base_valid[OF v s this] assms(2) show ?thesis by simp
qed

subsection \<open>The candidate gaps in binary64\<close>

text \<open>
  Each result of a double operation on positive operands lies within one percent of the
  exact one; this is enough to see that the candidate gaps are defined, that the first
  Tokuda and Lee candidates are exactly 1, and where the candidates pass \<open>10\<^sup>7\<close>.
\<close>

lemma lit_numeral [simp]:
  "numeral k < (2 :: int) ^ 53 \<Longrightarrow> lit (numeral k) = Finite (numeral k)"
  "lit 1 = Finite 1"
  by (simp_all add: lit_def)

lemma of_c_int_small:
  "\<bar>k\<bar> < 2 ^ 53 \<Longrightarrow> of_c_int k = Finite (of_int k)"
  by (simp add: of_c_int_def to_double_of_int)

lemma of_c_int_nat:
  "0 \<le> k \<Longrightarrow> k \<le> 64 \<Longrightarrow> of_c_int k = Finite (real (nat k))"
  by (subst of_c_int_small) simp_all

lemma tokuda_gap_first:
  assumes "pow_accurate pow"
  shows "tokuda_gap pow 1 = Some 1"
proof -
  from assms have p: "pow (Finite 9) (Finite 1) = Finite 9" "pow (Finite 4) (Finite 1) = Finite 4"
    "pow (Finite 4) (Finite 0) = Finite 1"
    by (simp_all add: pow_accurate_def)
  have c: "of_c_int 1 = Finite 1" "of_c_int 0 = Finite 0"
    by (simp_all add: of_c_int_def)
  show ?thesis
    by (simp add: tokuda_gap_def Let_def c p fsub_def fadd_def fneg_def fmul_def fdiv_def
        fceil_def to_u64_def)
qed

lemma tokuda_gap_bounds:
  assumes acc: "pow_accurate pow" and k1: "1 \<le> k" and k22: "k \<le> 22"
  shows "\<exists>v. tokuda_gap pow k = Some v \<and>
             \<lceil>(9 / 100 * (9 ^ nat k / 4 ^ (nat k - 1)) :: real)\<rceil> \<le> uint v"
proof -
  define n where "n = nat k"
  have n1: "1 \<le> n" and n22: "n \<le> 22" using k1 k22 by (simp_all add: n_def)
  define A :: real where "A = 9 ^ n"
  define U :: real where "U = 4 ^ (n - 1)"
  define \<rho> where "\<rho> = A / U"
  have U1: "1 \<le> U" unfolding U_def by (rule one_le_power) simp
  then have Upos: "0 < U" by simp
  have four: "(4 :: real) ^ n = 4 * U"
    using n1 unfolding U_def by (cases n) simp_all
  have nine: "A = 9 * 9 ^ (n - 1)"
    using n1 unfolding A_def by (cases n) simp_all
  have "(4 :: real) ^ (n - 1) \<le> 9 ^ (n - 1)" by (rule power_mono) simp_all
  with nine have AU: "9 * U \<le> A" by (simp add: U_def)
  have A22: "A \<le> 9 ^ 22" unfolding A_def using n22 by (intro power_increasing) simp_all
  have U21: "U \<le> 4 ^ 21" unfolding U_def using n22 by (intro power_increasing) simp_all
  have \<rho>9: "9 \<le> \<rho>" unfolding \<rho>_def using AU Upos by (simp add: pos_le_divide_eq)
  have "\<rho> \<le> A" unfolding \<rho>_def using U1 AU Upos by (simp add: pos_divide_le_eq)
  with A22 have \<rho>hi: "\<rho> \<le> 9 ^ 22" by simp
  have kn: "of_c_int k = Finite (real n)" "of_c_int (k - 1) = Finite (real (n - 1))"
    using k1 k22 by (simp_all add: of_c_int_nat n_def nat_diff_distrib)
  have n64: "n \<le> 64" "n - 1 \<le> 64" using n22 by simp_all
  have p9: "finite_in (99 / 100 * A) (101 / 100 * A) (pow (lit 9.0) (of_c_int k))"
    unfolding A_def kn
    by (rule finite_in_pow[OF acc, where c = "real n" and d = "real n"]) (simp_all add: n64)
  have p4: "finite_in (99 / 100 * (4 * U)) (101 / 100 * (4 * U)) (pow (lit 4.0) (of_c_int k))"
    unfolding four[symmetric] kn
    by (rule finite_in_pow[OF acc, where c = "real n" and d = "real n"]) (simp_all add: n64)
  have p4': "finite_in (99 / 100 * U) (101 / 100 * U) (pow (lit 4.0) (of_c_int (k - 1)))"
    unfolding U_def kn
    by (rule finite_in_pow[OF acc, where c = "real (n - 1)" and d = "real (n - 1)"])
       (use n22 in simp_all)
  have "finite_in (99 / 100 * (99 / 100 * A - 101 / 100 * (4 * U)))
          (101 / 100 * (101 / 100 * A - 99 / 100 * (4 * U)))
          (fsub (pow (lit 9.0) (of_c_int k)) (pow (lit 4.0) (of_c_int k)))"
  proof (rule finite_in_fsub[OF p9 p4])
    have "1 \<le> 99 / 100 * A - 101 / 100 * (4 * U)" using AU U1 by simp
    then show "1 / 2 ^ 20 \<le> 99 / 100 * A - 101 / 100 * (4 * U)"
      by (rule order_trans[rotated]) simp
    have "101 / 100 * A - 99 / 100 * (4 * U) \<le> 101 / 100 * 9 ^ 22" using A22 Upos by simp
    also have "\<dots> \<le> (2 :: real) ^ 1000" by simp
    finally show "101 / 100 * A - 99 / 100 * (4 * U) \<le> 2 ^ 1000" .
  qed
  then have num: "finite_in (A / 2) (103 / 100 * A)
          (fsub (pow (lit 9.0) (of_c_int k)) (pow (lit 4.0) (of_c_int k)))"
    by (rule finite_in_mono) (use AU Upos in simp_all)
  have "finite_in (99 / 100 * (5 * (99 / 100 * U))) (101 / 100 * (5 * (101 / 100 * U)))
          (fmul (lit 5.0) (pow (lit 4.0) (of_c_int (k - 1))))"
  proof (rule finite_in_fmul[OF _ p4'])
    show "finite_in 5 5 (lit 5.0)" by simp
    show "(0 :: real) < 5" by simp
    show "0 < 99 / 100 * U" using Upos by simp
    have "1 \<le> 5 * (99 / 100 * U)" using U1 by simp
    then show "1 / 2 ^ 20 \<le> 5 * (99 / 100 * U)" by (rule order_trans[rotated]) simp
    have "5 * (101 / 100 * U) \<le> 5 * (101 / 100 * 4 ^ 21)" using U21 by simp
    also have "\<dots> \<le> (2 :: real) ^ 1000" by simp
    finally show "5 * (101 / 100 * U) \<le> 2 ^ 1000" .
  qed
  then have den: "finite_in (49 / 10 * U) (511 / 100 * U)
          (fmul (lit 5.0) (pow (lit 4.0) (of_c_int (k - 1))))"
    by (rule finite_in_mono) (use Upos in simp_all)
  have q1: "(A / 2) / (511 / 100 * U) = 50 / 511 * \<rho>"
    using Upos by (simp add: \<rho>_def field_simps)
  have q2: "(103 / 100 * A) / (49 / 10 * U) = 103 / 490 * \<rho>"
    using Upos by (simp add: \<rho>_def field_simps)
  have Apos: "0 < A" using AU Upos by linarith
  have "finite_in (99 / 100 * (50 / 511 * \<rho>)) (101 / 100 * (103 / 490 * \<rho>))
          (fdiv (fsub (pow (lit 9.0) (of_c_int k)) (pow (lit 4.0) (of_c_int k)))
                (fmul (lit 5.0) (pow (lit 4.0) (of_c_int (k - 1)))))"
    unfolding q1[symmetric] q2[symmetric]
  proof (rule finite_in_fdiv[OF num den])
    show "0 < A / 2" using Apos by simp
    show "0 < 49 / 10 * U" using Upos by simp
    have "1 / 2 \<le> 50 / 511 * \<rho>" using \<rho>9 by simp
    then show "1 / 2 ^ 20 \<le> (A / 2) / (511 / 100 * U)"
      unfolding q1 by (rule order_trans[rotated]) simp
    have "103 / 490 * \<rho> \<le> 103 / 490 * 9 ^ 22" using \<rho>hi by simp
    also have "\<dots> \<le> (2 :: real) ^ 1000" by simp
    finally show "(103 / 100 * A) / (49 / 10 * U) \<le> 2 ^ 1000" unfolding q2 .
  qed
  then have quot: "finite_in (9 / 100 * \<rho>) (22 / 100 * \<rho>)
          (fdiv (fsub (pow (lit 9.0) (of_c_int k)) (pow (lit 4.0) (of_c_int k)))
                (fmul (lit 5.0) (pow (lit 4.0) (of_c_int (k - 1)))))"
    by (rule finite_in_mono) (use \<rho>9 in simp_all)
  have "(9 / 4 :: real) ^ n = A / (4 * U)"
    unfolding A_def four[symmetric] by (simp add: power_divide)
  then have "\<rho> = 4 * (9 / 4) ^ n"
    unfolding \<rho>_def using Upos by simp
  moreover have "(9 / 4 :: real) ^ n \<le> (9 / 4) ^ 22"
    using n22 by (intro power_increasing) simp_all
  ultimately have "\<rho> \<le> 4 * (9 / 4) ^ 22"
    by linarith
  then have "22 / 100 * \<rho> \<le> 22 / 100 * (4 * (9 / 4) ^ 22)" by simp
  also have "\<dots> \<le> (2 :: real) ^ 64 - 1" by (simp add: power_divide)
  finally have top: "22 / 100 * \<rho> \<le> 2 ^ 64 - 1" .
  have "0 \<le> 9 / 100 * \<rho>" using \<rho>9 by simp
  from to_u64_fceil_in[OF quot this top]
  show ?thesis
    by (auto simp: tokuda_gap_def Let_def \<rho>_def A_def U_def n_def)
qed

lemma tokuda_gap_exceeds:
  assumes "pow_accurate pow"
  shows "\<exists>v. tokuda_gap pow 22 = Some v \<and> 10000000 < v"
proof -
  from tokuda_gap_bounds[OF assms, of 22] obtain v where v: "tokuda_gap pow 22 = Some v"
    and b: "20151989 \<le> uint v"
    by auto
  from b have "10000000 < uint v" by simp
  then have "(10000000 :: u64) < v" by (simp add: word_less_def)
  with v show ?thesis by blast
qed

lemma GAMMA_in: "finite_in (222 / 100) (227 / 100) GAMMA"
proof -
  have "finite_in (99 / 100 * 2.243609061420001) (101 / 100 * 2.243609061420001) GAMMA"
    unfolding GAMMA_def by (rule finite_in_lit) simp_all
  then show ?thesis by (rule finite_in_mono) simp_all
qed

lemma GAMMA_minus_one_in: "finite_in (120 / 100) (129 / 100) (fsub GAMMA (lit 1.0))"
proof -
  have "finite_in (99 / 100 * (222 / 100 - 1)) (101 / 100 * (227 / 100 - 1)) (fsub GAMMA (lit 1.0))"
    by (rule finite_in_fsub[OF GAMMA_in]) simp_all
  then show ?thesis by (rule finite_in_mono) simp_all
qed

lemma lee_gap_first:
  assumes "pow_accurate pow"
  shows "lee_gap pow 1 = Some 1"
proof -
  from GAMMA_in obtain g where g: "GAMMA = Finite g" by (auto simp: finite_in_def)
  from GAMMA_minus_one_in obtain d where d: "fsub GAMMA (lit 1.0) = Finite d" "120 / 100 \<le> d"
    by (auto simp: finite_in_def)
  from assms have p: "pow (Finite g) (Finite 1) = Finite g"
    by (simp add: pow_accurate_def)
  have c: "of_c_int 1 = Finite 1" by (simp add: of_c_int_def)
  have "fdiv (fsub (pow GAMMA (of_c_int 1)) (lit 1.0)) (fsub GAMMA (lit 1.0)) = Finite 1"
    using d(2) unfolding c g p unfolding g[symmetric] d(1) by (simp add: fdiv_def)
  then show ?thesis
    by (simp add: lee_gap_def Let_def ffloor_def to_u64_def)
qed

lemma lee_gap_bounds:
  assumes acc: "pow_accurate pow" and k1: "1 \<le> k" and k22: "k \<le> 22"
  shows "\<exists>v. lee_gap pow k = Some v \<and>
             \<lfloor>(99 / 100 * (99 / 100 * (99 / 100 * (222 / 100) ^ nat k - 1) / (129 / 100)) :: real)\<rfloor>
               \<le> uint v"
proof -
  define n where "n = nat k"
  have n1: "1 \<le> n" and n22: "n \<le> 22" using k1 k22 by (simp_all add: n_def)
  define L :: real where "L = (222 / 100) ^ n"
  define H :: real where "H = (227 / 100) ^ n"
  have "L = 222 / 100 * (222 / 100) ^ (n - 1)"
    using n1 unfolding L_def by (cases n) simp_all
  moreover have "(1 :: real) \<le> (222 / 100) ^ (n - 1)" by (rule one_le_power) simp
  ultimately have L2: "222 / 100 \<le> L" by simp
  have H22: "H \<le> (227 / 100) ^ 22" unfolding H_def using n22 by (intro power_increasing) simp_all
  have LH: "L \<le> H" unfolding L_def H_def by (rule power_mono) simp_all
  have kn: "of_c_int k = Finite (real n)"
    using k1 k22 by (simp add: of_c_int_nat n_def)
  have pw: "finite_in (99 / 100 * L) (101 / 100 * H) (pow GAMMA (of_c_int k))"
    unfolding L_def H_def kn
    by (rule finite_in_pow[OF acc GAMMA_in, where c = "real n" and d = "real n"])
       (use n22 in simp_all)
  have num: "finite_in (99 / 100 * (99 / 100 * L - 1)) (101 / 100 * (101 / 100 * H - 1))
          (fsub (pow GAMMA (of_c_int k)) (lit 1.0))"
  proof (rule finite_in_fsub[OF pw])
    show "finite_in 1 1 (lit 1.0)" by simp
    have "1 \<le> 99 / 100 * L - 1" using L2 by simp
    then show "1 / 2 ^ 20 \<le> 99 / 100 * L - 1" by (rule order_trans[rotated]) simp
    have "101 / 100 * H - 1 \<le> 101 / 100 * (227 / 100) ^ 22" using H22 by simp
    also have "\<dots> \<le> (2 :: real) ^ 1000" by (simp add: power_divide)
    finally show "101 / 100 * H - 1 \<le> 2 ^ 1000" .
  qed
  have nlo: "1 \<le> 99 / 100 * (99 / 100 * L - 1)" using L2 by simp
  have quot: "finite_in (99 / 100 * (99 / 100 * (99 / 100 * L - 1) / (129 / 100)))
          (101 / 100 * (101 / 100 * (101 / 100 * H - 1) / (120 / 100)))
          (fdiv (fsub (pow GAMMA (of_c_int k)) (lit 1.0)) (fsub GAMMA (lit 1.0)))"
  proof (rule finite_in_fdiv[OF num GAMMA_minus_one_in])
    show "0 < 99 / 100 * (99 / 100 * L - 1)" using nlo by simp
    show "(0 :: real) < 120 / 100" by simp
    have "1 / 2 \<le> 99 / 100 * (99 / 100 * L - 1) / (129 / 100)" using nlo by simp
    then show "1 / 2 ^ 20 \<le> 99 / 100 * (99 / 100 * L - 1) / (129 / 100)"
      by (rule order_trans[rotated]) simp
    have "101 / 100 * (101 / 100 * H - 1) / (120 / 100)
            \<le> 101 / 100 * (101 / 100 * (227 / 100) ^ 22 - 1) / (120 / 100)"
      using H22 by simp
    also have "\<dots> \<le> (2 :: real) ^ 1000" by (simp add: power_divide)
    finally show "101 / 100 * (101 / 100 * H - 1) / (120 / 100) \<le> 2 ^ 1000" .
  qed
  have lo0: "0 \<le> 99 / 100 * (99 / 100 * (99 / 100 * L - 1) / (129 / 100))" using nlo by simp
  have "101 / 100 * (101 / 100 * (101 / 100 * H - 1) / (120 / 100))
          \<le> 101 / 100 * (101 / 100 * (101 / 100 * (227 / 100) ^ 22 - 1) / (120 / 100))"
    using H22 by simp
  also have "\<dots> < (2 :: real) ^ 64" by (simp add: power_divide)
  finally have top: "101 / 100 * (101 / 100 * (101 / 100 * H - 1) / (120 / 100)) < 2 ^ 64" .
  from to_u64_ffloor_in[OF quot lo0 top]
  show ?thesis
    by (auto simp: lee_gap_def Let_def L_def n_def)
qed

lemma lee_gap_exceeds:
  assumes "pow_accurate pow"
  shows "\<exists>v. lee_gap pow 22 = Some v \<and> 10000000 < v"
proof -
  have "(10000001 :: real)
          \<le> 99 / 100 * (99 / 100 * (99 / 100 * (222 / 100) ^ nat 22 - 1) / (129 / 100))"
    by (simp add: power_divide)
  then have lo: "10000001
          \<le> \<lfloor>(99 / 100 * (99 / 100 * (99 / 100 * (222 / 100) ^ nat 22 - 1) / (129 / 100)) :: real)\<rfloor>"
    by (simp only: le_floor_iff of_int_numeral)
  have pre: "(1 :: int) \<le> 22" "(22 :: int) \<le> 22" by simp_all
  from lee_gap_bounds[OF assms pre] obtain v where v: "lee_gap pow 22 = Some v"
    and b: "\<lfloor>(99 / 100 * (99 / 100 * (99 / 100 * (222 / 100) ^ nat 22 - 1) / (129 / 100)) :: real)\<rfloor>
               \<le> uint v"
    by blast
  from lo b have "10000001 \<le> uint v" by (rule order_trans)
  then have "(10000000 :: u64) < v" by (simp add: word_less_def)
  with v show ?thesis by blast
qed

lemma skean_constants:
  "finite_in (404 / 100) (413 / 100) (lit 4.0816)"
  "finite_in (848 / 100) (866 / 100) (lit 8.5714)"
  "finite_in (222 / 100) (227 / 100) (lit 2.2449)"
proof -
  have "finite_in (99 / 100 * 4.0816) (101 / 100 * 4.0816) (lit 4.0816)"
    by (rule finite_in_lit) simp_all
  then show "finite_in (404 / 100) (413 / 100) (lit 4.0816)"
    by (rule finite_in_mono) simp_all
  have "finite_in (99 / 100 * 8.5714) (101 / 100 * 8.5714) (lit 8.5714)"
    by (rule finite_in_lit) simp_all
  then show "finite_in (848 / 100) (866 / 100) (lit 8.5714)"
    by (rule finite_in_mono) simp_all
  have "finite_in (99 / 100 * 2.2449) (101 / 100 * 2.2449) (lit 2.2449)"
    by (rule finite_in_lit) simp_all
  then show "finite_in (222 / 100) (227 / 100) (lit 2.2449)"
    by (rule finite_in_mono) simp_all
qed

lemma skean_gap_from_power:
  assumes p: "finite_in (99 / 100 * (848 / 100) ^ m) (101 / 100 * (866 / 100) ^ 12) P"
  shows "\<exists>v. to_u64 (ffloor (fmul (lit 4.0816) P)) = Some v \<and>
             \<lfloor>(99 / 100 * (404 / 100 * (99 / 100 * (848 / 100) ^ m)) :: real)\<rfloor> \<le> uint v"
proof -
  have one: "(1 :: real) \<le> (848 / 100) ^ m" by (rule one_le_power) simp
  have prod: "finite_in (99 / 100 * (404 / 100 * (99 / 100 * (848 / 100) ^ m)))
          (101 / 100 * (413 / 100 * (101 / 100 * (866 / 100) ^ 12)))
          (fmul (lit 4.0816) P)"
  proof (rule finite_in_fmul[OF skean_constants(1) p])
    show "(0 :: real) < 404 / 100" by simp
    show "0 < 99 / 100 * (848 / 100 :: real) ^ m" using one by linarith
    have "1 \<le> 404 / 100 * (99 / 100 * (848 / 100 :: real) ^ m)" using one by linarith
    then show "1 / 2 ^ 20 \<le> 404 / 100 * (99 / 100 * (848 / 100 :: real) ^ m)"
      by (rule order_trans[rotated]) simp
    show "413 / 100 * (101 / 100 * (866 / 100) ^ 12) \<le> (2 :: real) ^ 1000"
      by (simp add: power_divide)
  qed
  have lo0: "0 \<le> 99 / 100 * (404 / 100 * (99 / 100 * (848 / 100 :: real) ^ m))" using one by linarith
  have top: "101 / 100 * (413 / 100 * (101 / 100 * (866 / 100) ^ 12)) < (2 :: real) ^ 64"
    by (simp add: power_divide)
  from to_u64_ffloor_in[OF prod lo0 top] show ?thesis by blast
qed

lemma skean_gap_zero:
  assumes acc: "pow_accurate pow"
  shows "\<exists>v. skean_gap pow 0 = Some v"
proof -
  from skean_constants(2,3) obtain b c where b: "lit 8.5714 = Finite b"
    and c: "lit 2.2449 = Finite c" "222 / 100 \<le> c"
    by (auto simp: finite_in_def)
  have y: "fdiv (of_c_int 0) (lit 2.2449) = Finite 0"
    using c(2) unfolding c(1) by (simp add: of_c_int_def fdiv_def)
  from acc have "pow (Finite b) (Finite 0) = Finite 1" by (simp add: pow_accurate_def)
  then have "finite_in (99 / 100 * (848 / 100) ^ 0) (101 / 100 * (866 / 100) ^ 12)
               (pow (lit 8.5714) (fdiv (of_c_int 0) (lit 2.2449)))"
    unfolding y b by (simp add: power_divide)
  from skean_gap_from_power[OF this] show ?thesis
    by (auto simp: skean_gap_def Let_def)
qed

lemma skean_gap_bounds:
  assumes acc: "pow_accurate pow" and k1: "1 \<le> k" and k25: "k \<le> 25"
    and m: "real m \<le> 99 / 100 * (real_of_int k / (227 / 100))"
  shows "\<exists>v. skean_gap pow k = Some v \<and>
             \<lfloor>(99 / 100 * (404 / 100 * (99 / 100 * (848 / 100) ^ m)) :: real)\<rfloor> \<le> uint v"
proof -
  define n where "n = nat k"
  have n1: "1 \<le> n" and n25: "n \<le> 25" using k1 k25 by (simp_all add: n_def)
  have kn: "of_c_int k = Finite (real n)" "real_of_int k = real n"
    using k1 k25 by (simp_all add: of_c_int_nat n_def)
  have rn: "1 \<le> real n" "real n \<le> 25" using n1 n25 by simp_all
  have y: "finite_in (99 / 100 * (real n / (227 / 100))) (101 / 100 * (real n / (222 / 100)))
             (fdiv (of_c_int k) (lit 2.2449))"
    unfolding kn
  proof (rule finite_in_fdiv[OF _ skean_constants(3)])
    show "finite_in (real n) (real n) (Finite (real n))" by simp
    show "0 < real n" using rn by simp
    show "(0 :: real) < 222 / 100" by simp
    have "1 / 3 \<le> real n / (227 / 100)" using rn by simp
    then show "1 / 2 ^ 20 \<le> real n / (227 / 100)" by (rule order_trans[rotated]) simp
    have "real n / (222 / 100) \<le> 25 / (222 / 100)" using rn by simp
    also have "\<dots> \<le> (2 :: real) ^ 1000" by simp
    finally show "real n / (222 / 100) \<le> 2 ^ 1000" .
  qed
  have "finite_in (99 / 100 * (848 / 100) ^ m) (101 / 100 * (866 / 100) ^ 12)
          (pow (lit 8.5714) (fdiv (of_c_int k) (lit 2.2449)))"
  proof (rule finite_in_pow[OF acc skean_constants(2) y])
    show "real m \<le> 99 / 100 * (real n / (227 / 100))" using m by (simp add: kn)
    have "101 / 100 * (real n / (222 / 100)) \<le> 101 / 100 * (25 / (222 / 100))" using rn by simp
    also have "\<dots> \<le> real 12" by simp
    finally show "101 / 100 * (real n / (222 / 100)) \<le> real 12" .
  qed simp_all
  from skean_gap_from_power[OF this] show ?thesis
    by (auto simp: skean_gap_def Let_def)
qed

lemma skean_gap_defined:
  assumes "pow_accurate pow" and "0 \<le> k" and "k \<le> 25"
  shows "\<exists>v. skean_gap pow k = Some v"
proof (cases "k = 0")
  case True
  with skean_gap_zero[OF assms(1)] show ?thesis by simp
next
  case False
  with assms(2) have k1: "1 \<le> k" by simp
  then have "real 0 \<le> 99 / 100 * (real_of_int k / (227 / 100))" by simp
  from skean_gap_bounds[OF assms(1) k1 assms(3) this] show ?thesis by blast
qed

lemma skean_gap_exceeds:
  assumes "pow_accurate pow"
  shows "\<exists>v. skean_gap pow 25 = Some v \<and> 10000000 < v"
proof -
  have "(10000001 :: real) \<le> 99 / 100 * (404 / 100 * (99 / 100 * (848 / 100) ^ 10))"
    by (simp add: power_divide)
  then have lo: "10000001 \<le> \<lfloor>(99 / 100 * (404 / 100 * (99 / 100 * (848 / 100) ^ 10)) :: real)\<rfloor>"
    by (simp only: le_floor_iff of_int_numeral)
  have pre: "(1 :: int) \<le> 25" "(25 :: int) \<le> 25"
    "real 10 \<le> 99 / 100 * (real_of_int 25 / (227 / 100))"
    by simp_all
  from skean_gap_bounds[OF assms pre] obtain v where v: "skean_gap pow 25 = Some v"
    and b: "\<lfloor>(99 / 100 * (404 / 100 * (99 / 100 * (848 / 100) ^ 10)) :: real)\<rfloor> \<le> uint v"
    by blast
  from lo b have "10000001 \<le> uint v" by (rule order_trans)
  then have "(10000000 :: u64) < v" by (simp add: word_less_def)
  with v show ?thesis by blast
qed

lemma times_2_25_defined:
  assumes "x \<noteq> 0" and "x \<le> 10000000"
  shows "\<exists>v. times_2_25 x = Some v"
proof -
  from assms(1) have x1: "1 \<le> real (unat x)"
    using unat_gt_0[of x] by linarith
  from assms(2) have "unat x \<le> 10000000" by (simp add: word_le_nat_alt)
  then have xm: "real (unat x) \<le> 10000000" by linarith
  have c: "finite_in (99 / 100 * 2.25) (101 / 100 * 2.25) (lit 2.25)"
    by (rule finite_in_lit) simp_all
  have prod: "finite_in (99 / 100 * (99 / 100 * real (unat x) * (99 / 100 * 2.25)))
          (101 / 100 * (101 / 100 * real (unat x) * (101 / 100 * 2.25)))
          (fmul (of_u64 x) (lit 2.25))"
  proof (rule finite_in_fmul[OF finite_in_of_u64[OF assms(1)] c])
    show "0 < 99 / 100 * real (unat x)" using x1 by simp
    show "(0 :: real) < 99 / 100 * 2.25" by simp
    have "1 \<le> 99 / 100 * real (unat x) * (99 / 100 * 2.25)" using x1 by simp
    then show "1 / 2 ^ 20 \<le> 99 / 100 * real (unat x) * (99 / 100 * 2.25)"
      by (rule order_trans[rotated]) simp
    have "101 / 100 * real (unat x) * (101 / 100 * 2.25) \<le> 101 / 100 * 10000000 * (101 / 100 * 2.25)"
      using xm by simp
    also have "\<dots> \<le> (2 :: real) ^ 1000" by simp
    finally show "101 / 100 * real (unat x) * (101 / 100 * 2.25) \<le> 2 ^ 1000" .
  qed
  have lo0: "0 \<le> 99 / 100 * (99 / 100 * real (unat x) * (99 / 100 * 2.25))" using x1 by simp
  have "101 / 100 * (101 / 100 * real (unat x) * (101 / 100 * 2.25))
          \<le> 101 / 100 * (101 / 100 * 10000000 * (101 / 100 * 2.25))"
    using xm by simp
  also have "\<dots> < (2 :: real) ^ 64" by simp
  finally have top: "101 / 100 * (101 / 100 * real (unat x) * (101 / 100 * 2.25)) < 2 ^ 64" .
  from to_u64_in[OF prod lo0 top] show ?thesis
    by (auto simp: times_2_25_def)
qed

subsection \<open>The loops keep a sequence valid\<close>

lemma valid_up_to_last_pos: "valid_up_to max_gap seq \<Longrightarrow> last_gap seq \<noteq> 0"
  by (simp add: valid_up_to_def wf_seq_def seq_invariants_def last_gap_def)

lemma extend_2_25_valid:
  "valid_up_to max_gap seq \<Longrightarrow> max_gap \<le> 10000000 \<Longrightarrow>
   \<exists>seq'. extend_2_25 max_gap seq = Some seq' \<and> valid_up_to max_gap seq'"
proof (induction max_gap seq rule: extend_2_25.induct)
  case (1 max_gap seq)
  from valid_up_to_wf[OF "1.prems"(1)] have pos: "num_gaps seq \<noteq> 0" by simp
  show ?case
  proof (cases "num_gaps seq < MAX_GAPS")
    case False
    with "1.prems" show ?thesis by (subst extend_2_25.simps) simp
  next
    case True
    from valid_up_to_last[OF "1.prems"(1)] "1.prems"(2) have "last_gap seq \<le> 10000000"
      by (rule order_trans)
    from times_2_25_defined[OF valid_up_to_last_pos[OF "1.prems"(1)] this]
    obtain nxt where nxt: "times_2_25 (last_gap seq) = Some nxt" ..
    show ?thesis
    proof (cases "max_gap < nxt \<or> nxt \<le> last_gap seq")
      case stop: True
      with True pos nxt "1.prems" show ?thesis by (subst extend_2_25.simps) simp
    next
      case False
      then have "last_gap seq < nxt" "nxt \<le> max_gap" by auto
      from valid_up_to_push[OF "1.prems"(1) True this]
      have "valid_up_to max_gap (push_gap seq nxt)" .
      from "1.IH"[OF True pos nxt False this "1.prems"(2)] True pos nxt False show ?thesis
        by (subst extend_2_25.simps) simp
    qed
  qed
qed

lemma u64_bump: "(x :: u64) \<le> m \<Longrightarrow> m \<noteq> - 1 \<Longrightarrow> x < x + 1"
  by (metis inc_less_eq_triv_imp linorder_not_less order_antisym word_order.extremum)

text \<open>
  The loop of Tokuda and Lee, when the formula is defined for every \<open>k\<close> up to one where
  it exceeds \<open>max_gap\<close>.
\<close>

lemma closed_form_valid:
  "valid_up_to max_gap seq \<Longrightarrow> max_gap \<noteq> - 1 \<Longrightarrow> k \<le> kmax \<Longrightarrow>
   (\<And>j. k \<le> j \<Longrightarrow> j \<le> kmax \<Longrightarrow> \<exists>v. formula j = Some v) \<Longrightarrow>
   \<exists>v. formula kmax = Some v \<and> max_gap < v \<Longrightarrow>
   \<exists>seq'. closed_form_for formula max_gap k seq = Some seq' \<and> valid_up_to max_gap seq'"
proof (induction formula max_gap k seq rule: closed_form_for.induct)
  case (1 formula max_gap k seq)
  from valid_up_to_wf[OF "1.prems"(1)] have pos: "0 < num_gaps seq" by simp
  show ?case
  proof (cases "num_gaps seq < MAX_GAPS")
    case False
    with "1.prems"(1) show ?thesis by (subst closed_form_for.simps) simp
  next
    case room: True
    from "1.prems"(4)[OF order_refl "1.prems"(3)] obtain gap where gap: "formula k = Some gap" ..
    show ?thesis
    proof (cases "max_gap < gap")
      case True
      with room gap "1.prems"(1) show ?thesis by (subst closed_form_for.simps) simp
    next
      case fits: False
      with "1.prems"(5) gap have "k \<noteq> kmax" by auto
      with "1.prems"(3) have k: "k + 1 \<le> kmax" by simp
      have defined: "\<exists>v. formula j = Some v" if "k + 1 \<le> j" "j \<le> kmax" for j
        using that by (intro "1.prems"(4)) simp_all
      show ?thesis
      proof (cases "gap \<le> last_gap seq")
        case bump: True
        have cond: "0 < num_gaps seq \<and> gap \<le> last_gap seq" using pos bump by simp
        show ?thesis
        proof (cases "max_gap < last_gap seq + 1")
          case True
          with room gap fits cond "1.prems"(1) show ?thesis
            by (subst closed_form_for.simps) (simp add: Let_def)
        next
          case False
          from u64_bump[OF valid_up_to_last[OF "1.prems"(1)] "1.prems"(2)]
          have "last_gap seq < last_gap seq + 1" .
          moreover from False have "last_gap seq + 1 \<le> max_gap" by simp
          ultimately have "valid_up_to max_gap (push_gap seq (last_gap seq + 1))"
            by (rule valid_up_to_push[OF "1.prems"(1) room])
          from "1.IH"(1)[OF room gap fits cond refl False this "1.prems"(2) k defined "1.prems"(5)]
            room gap fits cond False
          show ?thesis
            by (subst closed_form_for.simps) (simp add: Let_def)
        qed
      next
        case False
        then have ncond: "\<not> (0 < num_gaps seq \<and> gap \<le> last_gap seq)" by simp
        from False fits have "last_gap seq < gap" "gap \<le> max_gap" by auto
        then have "valid_up_to max_gap (push_gap seq gap)"
          by (rule valid_up_to_push[OF "1.prems"(1) room])
        from "1.IH"(2)[OF room gap fits ncond this "1.prems"(2) k defined "1.prems"(5)]
          room gap fits pos False
        show ?thesis
          by (subst closed_form_for.simps) (auto simp add: Let_def)
      qed
    qed
  qed
qed

lemma closed_form_first:
  assumes "wf_seq seq" and "1 \<le> max_gap" and "max_gap \<noteq> - 1" and "formula 1 = Some 1"
    and defined: "\<And>j. 1 \<le> j \<Longrightarrow> j \<le> kmax \<Longrightarrow> \<exists>v. formula j = Some v"
    and exceeds: "\<exists>v. formula kmax = Some v \<and> max_gap < v" and "1 \<le> kmax"
  shows "\<exists>seq'. closed_form_for formula max_gap 1 (seq\<lparr>name := nm, num_gaps := 0\<rparr>) = Some seq' \<and>
           valid_up_to max_gap seq'"
proof -
  let ?s = "seq\<lparr>name := nm, num_gaps := 0\<rparr>"
  have wf: "wf_seq ?s" by (rule wf_seq_restart[OF assms(1)])
  have v: "valid_up_to max_gap (push_gap ?s 1)"
    by (rule valid_up_to_first[OF wf _ assms(2)]) simp
  from assms(2) have "max_gap \<noteq> 0" by (auto simp: word_le_nat_alt)
  then have first: "closed_form_for formula max_gap 1 ?s
      = closed_form_for formula max_gap 2 (push_gap ?s 1)"
    using assms(4) by (subst closed_form_for.simps) (simp add: Let_def MAX_GAPS_def not_less)
  from exceeds assms(2,4) have "kmax \<noteq> 1" by (auto simp: not_less)
  with assms(7) have k: "2 \<le> kmax" by simp
  have "\<exists>seq'. closed_form_for formula max_gap 2 (push_gap ?s 1) = Some seq' \<and>
           valid_up_to max_gap seq'"
    by (rule closed_form_valid[where formula = formula and kmax = kmax, OF v assms(3) k _ exceeds])
       (rule defined, simp_all)
  with first show ?thesis by simp
qed

text \<open>The loop of Skean, under the same condition, with \<open>kmax\<close> in the range of \<^verbatim>\<open>int\<close>.\<close>

lemma gaps_skean_for_valid:
  "valid_up_to max_gap seq \<Longrightarrow> k \<le> kmax \<Longrightarrow> kmax \<le> INT_MAX \<Longrightarrow>
   (\<And>j. k \<le> j \<Longrightarrow> j \<le> kmax \<Longrightarrow> \<exists>v. formula j = Some v) \<Longrightarrow>
   \<exists>v. formula kmax = Some v \<and> max_gap < v \<Longrightarrow>
   \<exists>seq'. gaps_skean_for formula max_gap k seq = Some seq' \<and> valid_up_to max_gap seq'"
proof (induction formula max_gap k seq rule: gaps_skean_for.induct)
  case (1 formula max_gap k seq)
  show ?case
  proof (cases "num_gaps seq < MAX_GAPS")
    case False
    with "1.prems"(1) show ?thesis by (subst gaps_skean_for.simps) simp
  next
    case room: True
    from "1.prems"(4)[OF order_refl "1.prems"(2)] obtain gap where gap: "formula k = Some gap" ..
    show ?thesis
    proof (cases "max_gap < gap")
      case True
      with room gap "1.prems"(1) show ?thesis by (subst gaps_skean_for.simps) simp
    next
      case fits: False
      with "1.prems"(5) gap have "k \<noteq> kmax" by auto
      with "1.prems"(2,3) have k: "\<not> INT_MAX \<le> k" "k + 1 \<le> kmax" by auto
      have defined: "\<exists>v. formula j = Some v" if "k + 1 \<le> j" "j \<le> kmax" for j
        using that by (intro "1.prems"(4)) simp_all
      show ?thesis
      proof (cases "gap \<le> last_gap seq")
        case True
        from "1.IH"(1)[OF room gap fits k(1) True "1.prems"(1) k(2) "1.prems"(3) defined "1.prems"(5)]
          room gap fits k(1) True
        show ?thesis by (subst gaps_skean_for.simps) simp
      next
        case False
        with fits have "last_gap seq < gap" "gap \<le> max_gap" by auto
        then have "valid_up_to max_gap (push_gap seq gap)"
          by (rule valid_up_to_push[OF "1.prems"(1) room])
        from "1.IH"(2)[OF room gap fits k(1) False this k(2) "1.prems"(3) defined "1.prems"(5)]
          room gap fits k(1) False
        show ?thesis by (subst gaps_skean_for.simps) simp
      qed
    qed
  qed
qed

subsection \<open>Sedgewick's sequence, run at the four bounds\<close>

lemma gaps_sedgewick86_runs:
  "gaps_sedgewick86 seq 1 = Some (copy_base [1] 1 (seq\<lparr>name := ''Sedgewick-1986'', num_gaps := 0\<rparr>))"
  "gaps_sedgewick86 seq 10 = Some (copy_base [1, 8] 10 (seq\<lparr>name := ''Sedgewick-1986'', num_gaps := 0\<rparr>))"
  "gaps_sedgewick86 seq 701
     = Some (copy_base [1, 8, 23, 77, 281] 701 (seq\<lparr>name := ''Sedgewick-1986'', num_gaps := 0\<rparr>))"
  "gaps_sedgewick86 seq 10000000
     = Some (copy_base [1, 8, 23, 77, 281, 1073, 4193, 16577, 65921, 262913, 1050113, 4197377]
               10000000 (seq\<lparr>name := ''Sedgewick-1986'', num_gaps := 0\<rparr>))"
  by (simp_all add: gaps_sedgewick86_def gaps_sedgewick86_for.simps push_gap_simps MAX_GAPS_def
      Let_def word_le_nat_alt word_less_nat_alt)

lemma gaps_sedgewick86_valid:
  assumes "wf_seq seq" and "max_gap \<in> {1, 10, 701, 10000000}"
  shows "\<exists>seq'. gaps_sedgewick86 seq max_gap = Some seq' \<and> valid_up_to max_gap seq'"
proof -
  from assms(2) consider "max_gap = 1" | "max_gap = 10" | "max_gap = 701" | "max_gap = 10000000"
    by auto
  then show ?thesis
  proof cases
    case 1
    have "valid_up_to 1 (copy_base [1] 1 (seq\<lparr>name := ''Sedgewick-1986'', num_gaps := 0\<rparr>))"
      by (rule copy_base_first[OF assms(1)]) (simp_all add: MAX_GAPS_def)
    with 1 show ?thesis by (simp add: gaps_sedgewick86_runs del: copy_base.simps)
  next
    case 2
    have "valid_up_to 10 (copy_base [1, 8] 10 (seq\<lparr>name := ''Sedgewick-1986'', num_gaps := 0\<rparr>))"
      by (rule copy_base_first[OF assms(1)]) (simp_all add: MAX_GAPS_def word_less_nat_alt word_le_nat_alt)
    with 2 show ?thesis by (simp add: gaps_sedgewick86_runs del: copy_base.simps)
  next
    case 3
    have "valid_up_to 701 (copy_base [1, 8, 23, 77, 281] 701
            (seq\<lparr>name := ''Sedgewick-1986'', num_gaps := 0\<rparr>))"
      by (rule copy_base_first[OF assms(1)]) (simp_all add: MAX_GAPS_def word_less_nat_alt word_le_nat_alt)
    with 3 show ?thesis by (simp add: gaps_sedgewick86_runs del: copy_base.simps)
  next
    case 4
    have "valid_up_to 10000000
            (copy_base [1, 8, 23, 77, 281, 1073, 4193, 16577, 65921, 262913, 1050113, 4197377]
               10000000 (seq\<lparr>name := ''Sedgewick-1986'', num_gaps := 0\<rparr>))"
      by (rule copy_base_first[OF assms(1)]) (simp_all add: MAX_GAPS_def word_less_nat_alt word_le_nat_alt)
    with 4 show ?thesis by (simp add: gaps_sedgewick86_runs del: copy_base.simps)
  qed
qed



lemma wf_zero_sequence: "wf_seq zero_sequence"
  by (simp add: wf_seq_def zero_sequence_def)

text \<open>The correctly rounded power is accurate in the sense above.\<close>

lemma pow_accurate_rounded_pow: "pow_accurate rounded_pow"
  unfolding pow_accurate_def
proof (intro conjI allI impI)
  fix x y :: real
  assume xy: "1 \<le> x \<and> x \<le> 16 \<and> 0 \<le> y \<and> y \<le> 64"
  show "\<exists>r. rounded_pow (Finite x) (Finite y) = Finite r \<and>
          99 / 100 * x powr y \<le> r \<and> r \<le> 101 / 100 * x powr y"
  proof (cases "y = 0 \<or> y = 1")
    case True
    with xy show ?thesis by (auto simp: rounded_pow_def)
  next
    case False
    have lo: "1 \<le> x powr y" using xy by (simp add: ge_one_powr_ge_zero)
    have "x powr y \<le> 16 powr y" using xy by (intro powr_mono2) simp_all
    also have "\<dots> \<le> 16 powr 64" using xy by (intro powr_mono) simp_all
    also have "\<dots> = (16 :: real) ^ 64" by simp
    also have "\<dots> \<le> 2 ^ 1000" by simp
    finally have hi: "x powr y \<le> 2 ^ 1000" .
    have "finite_in (99 / 100 * x powr y) (101 / 100 * x powr y) (to_double (x powr y))"
    proof (rule finite_in_to_double)
      show "1 / 2 ^ 20 \<le> x powr y" using lo by (rule order_trans[rotated]) simp
    qed (use hi in simp_all)
    with False xy show ?thesis by (auto simp: rounded_pow_def finite_in_def)
  qed
qed (simp_all add: rounded_pow_def)

text \<open>
  C4. For each of the six baseline generators and every \<open>max_gap\<close> in
  \<open>{1, 10, 701, 10000000}\<close>, the generator returns a sequence that is non-empty, starts at
  1, is strictly increasing, has only positive gaps and no gap above \<open>max_gap\<close>. The
  arithmetic is that of binary64; of \<^verbatim>\<open>pow\<close> the proof uses that \<open>pow(x, 0) = 1\<close> and
  \<open>pow(x, 1) = x\<close> exactly and that its other results are within one percent.
\<close>

theorem generators_valid:
  assumes "pow_accurate pow" and "max_gap \<in> {1, 10, 701, 10000000}" and "wf_seq seq"
  shows "(\<exists>s. gaps_ciura seq max_gap = Some s \<and> valid_up_to max_gap s) \<and>
         (\<exists>s. gaps_ciura_extended seq max_gap = Some s \<and> valid_up_to max_gap s) \<and>
         (\<exists>s. gaps_tokuda pow seq max_gap = Some s \<and> valid_up_to max_gap s) \<and>
         (\<exists>s. gaps_lee pow seq max_gap = Some s \<and> valid_up_to max_gap s) \<and>
         (\<exists>s. gaps_skean pow seq max_gap = Some s \<and> valid_up_to max_gap s) \<and>
         (\<exists>s. gaps_sedgewick86 seq max_gap = Some s \<and> valid_up_to max_gap s)"
proof -
  from assms(2) have one: "1 \<le> max_gap" and top: "max_gap \<noteq> - 1" and small: "max_gap \<le> 10000000"
    by (auto simp: word_le_nat_alt)
  have ciura: "\<exists>s. gaps_ciura seq max_gap = Some s \<and> valid_up_to max_gap s"
    unfolding gaps_ciura_def ciura_base_def
    by (rule extend_2_25_valid[OF _ small], rule copy_base_first[OF assms(3) one])
       (simp_all add: MAX_GAPS_def word_less_nat_alt)
  have ciura_ext: "\<exists>s. gaps_ciura_extended seq max_gap = Some s \<and> valid_up_to max_gap s"
    unfolding gaps_ciura_extended_def ciura_ext_base_def
    by (rule extend_2_25_valid[OF _ small], rule copy_base_first[OF assms(3) one])
       (simp_all add: MAX_GAPS_def word_less_nat_alt)
  have tokuda: "\<exists>s. gaps_tokuda pow seq max_gap = Some s \<and> valid_up_to max_gap s"
    unfolding gaps_tokuda_def
  proof (rule closed_form_first[where kmax = 22 and formula = "tokuda_gap pow", OF assms(3) one top tokuda_gap_first[OF assms(1)]])
    fix j :: int
    assume "1 \<le> j" "j \<le> 22"
    from tokuda_gap_bounds[OF assms(1) this] show "\<exists>v. tokuda_gap pow j = Some v" by blast
  next
    from tokuda_gap_exceeds[OF assms(1)] small
    show "\<exists>v. tokuda_gap pow 22 = Some v \<and> max_gap < v" by fastforce
  qed simp
  have lee: "\<exists>s. gaps_lee pow seq max_gap = Some s \<and> valid_up_to max_gap s"
    unfolding gaps_lee_def
  proof (rule closed_form_first[where kmax = 22 and formula = "lee_gap pow", OF assms(3) one top lee_gap_first[OF assms(1)]])
    fix j :: int
    assume "1 \<le> j" "j \<le> 22"
    from lee_gap_bounds[OF assms(1) this] show "\<exists>v. lee_gap pow j = Some v" by blast
  next
    from lee_gap_exceeds[OF assms(1)] small
    show "\<exists>v. lee_gap pow 22 = Some v \<and> max_gap < v" by fastforce
  qed simp
  have "valid_up_to max_gap (push_gap (seq\<lparr>name := ''Skean-2023'', num_gaps := 0\<rparr>) 1)"
    by (rule valid_up_to_first[OF wf_seq_restart[OF assms(3)] _ one]) simp
  then have skean: "\<exists>s. gaps_skean pow seq max_gap = Some s \<and> valid_up_to max_gap s"
    unfolding gaps_skean_def
  proof (rule gaps_skean_for_valid[where kmax = 25 and formula = "skean_gap pow"])
    fix j :: int
    assume "0 \<le> j" "j \<le> 25"
    from skean_gap_defined[OF assms(1) this] show "\<exists>v. skean_gap pow j = Some v" .
  next
    from skean_gap_exceeds[OF assms(1)] small
    show "\<exists>v. skean_gap pow 25 = Some v \<and> max_gap < v" by fastforce
  qed (simp_all add: INT_MAX_def)
  from ciura ciura_ext tokuda lee skean gaps_sedgewick86_valid[OF assms(3,2)]
  show ?thesis by (intro conjI)
qed

text \<open>
  With the correctly rounded \<^verbatim>\<open>pow\<close>: the first Tokuda candidates are 1, 4, 9, 20, and
  \<^verbatim>\<open>(uint64_t)(701 * 2.25)\<close> is 1577.
\<close>

lemma tokuda_gap_rounded:
  "tokuda_gap rounded_pow 1 = Some 1" "tokuda_gap rounded_pow 2 = Some 4"
  "tokuda_gap rounded_pow 3 = Some 9" "tokuda_gap rounded_pow 4 = Some 20"
  by (simp_all add: tokuda_gap_def Let_def rounded_pow_def of_c_int_def fsub_def fadd_def fneg_def
      fmul_def fdiv_def fceil_def to_u64_def)

lemma times_2_25_701: "times_2_25 701 = Some 1577"
  by (simp add: times_2_25_def of_u64_def lit_def fmul_def to_u64_def)


theorem generators_valid_witness:
  "pow_accurate rounded_pow \<and> (701 :: u64) \<in> {1, 10, 701, 10000000} \<and> wf_seq zero_sequence \<and>
   (\<exists>s. gaps_ciura zero_sequence 701 = Some s \<and> valid_up_to 701 s) \<and>
   (\<exists>s. gaps_ciura_extended zero_sequence 701 = Some s \<and> valid_up_to 701 s) \<and>
   (\<exists>s. gaps_tokuda rounded_pow zero_sequence 701 = Some s \<and> valid_up_to 701 s) \<and>
   (\<exists>s. gaps_lee rounded_pow zero_sequence 701 = Some s \<and> valid_up_to 701 s) \<and>
   (\<exists>s. gaps_skean rounded_pow zero_sequence 701 = Some s \<and> valid_up_to 701 s) \<and>
   (\<exists>s. gaps_sedgewick86 zero_sequence 701 = Some s \<and> valid_up_to 701 s) \<and>
   map_option populated (gaps_ciura zero_sequence 701) = Some [1, 4, 10, 23, 57, 132, 301, 701] \<and>
   map_option populated (gaps_tokuda rounded_pow zero_sequence 10) = Some [1, 4, 9] \<and>
   map_option populated (gaps_sedgewick86 zero_sequence 701) = Some [1, 8, 23, 77, 281]"
proof -
  have m: "(701 :: u64) \<in> {1, 10, 701, 10000000}" by simp
  note all = generators_valid[OF pow_accurate_rounded_pow m wf_zero_sequence]
  have r1: "map_option populated (gaps_ciura zero_sequence 701)
      = Some [1, 4, 10, 23, 57, 132, 301, 701]"
    by (simp add: gaps_ciura_def ciura_base_def extend_2_25.simps times_2_25_701 push_gap_def
        last_gap_def zero_sequence_def MAX_GAPS_def populated_def Let_def word_le_nat_alt
        word_less_nat_alt)
       code_simp
  have r2: "map_option populated (gaps_tokuda rounded_pow zero_sequence 10) = Some [1, 4, 9]"
    by (simp add: gaps_tokuda_def closed_form_for.simps tokuda_gap_rounded push_gap_def
        last_gap_def zero_sequence_def MAX_GAPS_def populated_def Let_def word_le_nat_alt
        word_less_nat_alt)
       code_simp
  have r3: "map_option populated (gaps_sedgewick86 zero_sequence 701) = Some [1, 8, 23, 77, 281]"
    by code_simp
  show ?thesis
    by (intro conjI pow_accurate_rounded_pow m wf_zero_sequence
        all[THEN conjunct1] all[THEN conjunct2, THEN conjunct1]
        all[THEN conjunct2, THEN conjunct2, THEN conjunct1]
        all[THEN conjunct2, THEN conjunct2, THEN conjunct2, THEN conjunct1]
        all[THEN conjunct2, THEN conjunct2, THEN conjunct2, THEN conjunct2, THEN conjunct1]
        all[THEN conjunct2, THEN conjunct2, THEN conjunct2, THEN conjunct2, THEN conjunct2]
        r1 r2 r3)
qed

section \<open>Properties of the dataset loaders\<close>

lemma misnamed_fs_hit:
  "misnamed_fs (dataset_path ''perms'' 10) = Some (dataset_file 5 1 0xC0FFEE1234 [4, 3, 2, 1, 0])"
  by code_simp

lemma misnamed_file_reads:
  "fread_u64 u (dataset_file 5 1 0xC0FFEE1234 [4, 3, 2, 1, 0])
     = (True, MAGIC, le_bytes 8 (5 :: u64) @ le_bytes 8 (1 :: u64) @ le_bytes 8 (0xC0FFEE1234 :: u64) @ misnamed_rows)"
  "fread_u64 u (le_bytes 8 (5 :: u64) @ le_bytes 8 (1 :: u64) @ le_bytes 8 (0xC0FFEE1234 :: u64) @ misnamed_rows)
     = (True, 5, le_bytes 8 (1 :: u64) @ le_bytes 8 (0xC0FFEE1234 :: u64) @ misnamed_rows)"
  "fread_u64 u (le_bytes 8 (1 :: u64) @ le_bytes 8 (0xC0FFEE1234 :: u64) @ misnamed_rows)
     = (True, 1, le_bytes 8 (0xC0FFEE1234 :: u64) @ misnamed_rows)"
  "fread_u64 u (le_bytes 8 (0xC0FFEE1234 :: u64) @ misnamed_rows) = (True, 0xC0FFEE1234, misnamed_rows)"
  by code_simp+

lemma misnamed_rows_read:
  "fread_i32 5 misnamed_rows = misnamed_rows"
  "length misnamed_rows = 20"
  "i32_items misnamed_rows = [4, 3, 2, 1, 0]"
  by code_simp+

text \<open>
  The loader of bench.c returns \<open>-1\<close> whenever the file does not start with the magic or
  the stored \<open>N\<close> is not the one asked for.
\<close>

lemma bench_load_dataset_rejects:
  assumes "fs (dataset_path perms_dir N) = Some f"
    and "fread_u64 uninit f = (ok, magic, f')"
    and "fread_u64 (ds_N ds) f' = (ok', n, f'')"
    and "\<not> ok \<or> magic \<noteq> MAGIC \<or> \<not> ok' \<or> n \<noteq> N"
  shows "\<exists>ds'. bench_load_dataset fs malloc_ok uninit heap perms_dir N ds = Inr (- 1, ds')"
  using assms
  by (auto simp: bench_load_dataset_def Let_def split: prod.splits)

text \<open>The other three loaders return \<open>-1\<close> when the 8 bytes they compare are not the magic.\<close>

lemma simple_loaders_reject_magic:
  assumes "fs (dataset_path dir N) = Some f" and "fread_u64 uninit f = (ok, m, f')" and "m \<noteq> MAGIC"
  shows "validate_load_dataset fs malloc_ok uninit heap dir N ds = Inr (- 1, ds)"
    and "full_bench_load_dataset fs malloc_ok uninit heap dir N ds = Inr (- 1, ds)"
    and "all_baselines_load_dataset fs malloc_ok uninit heap dir N ds = Inr (- 1, ds)"
  using assms
  by (simp_all add: validate_load_dataset_def full_bench_load_dataset_def
      all_baselines_load_dataset_def)

text \<open>
  C7 fails on the code: asked for \<open>N = 10\<close> and given a file whose stored \<open>N\<close> is 5, the
  loaders of validate.c, full_bench.c and all_baselines_bench.c return 0 with a dataset of
  \<open>N = 5\<close>; the loader of bench.c returns \<open>-1\<close> on the same file.
\<close>

theorem loaders_on_misnamed_file:
  "validate_load_dataset misnamed_fs (\<lambda>size. True) uninit heap ''perms'' 10 ds
     = Inr (0, ds\<lparr>ds_N := 5, ds_trials := 1, ds_data := Some [4, 3, 2, 1, 0]\<rparr>) \<and>
   full_bench_load_dataset misnamed_fs (\<lambda>size. True) uninit heap ''perms'' 10 ds
     = Inr (0, ds\<lparr>ds_N := 5, ds_trials := 1, ds_data := Some [4, 3, 2, 1, 0]\<rparr>) \<and>
   all_baselines_load_dataset misnamed_fs (\<lambda>size. True) uninit heap ''perms'' 10 ds
     = Inr (0, ds\<lparr>ds_N := 5, ds_trials := 1, ds_data := Some [4, 3, 2, 1, 0]\<rparr>) \<and>
   bench_load_dataset misnamed_fs (\<lambda>size. True) uninit heap ''perms'' 10 ds
     = Inr (- 1, ds\<lparr>ds_N := 5, ds_trials := 1, ds_master_seed := 0xC0FFEE1234\<rparr>)"
  by (simp add: validate_load_dataset_def full_bench_load_dataset_def
      all_baselines_load_dataset_def bench_load_dataset_def
      misnamed_fs_hit misnamed_file_reads misnamed_rows_read Let_def)

section \<open>Properties of the statistics\<close>

text \<open>The loop, by an invariant.\<close>

lemma u64_inc: "(i :: u64) < n \<Longrightarrow> i + 1 \<le> n \<and> unat (i + 1) = Suc (unat i)"
proof -
  assume l: "i < n"
  then have ul: "unat i < unat n" by (simp add: word_less_nat_alt)
  have nz: "i + 1 \<noteq> 0"
  proof
    assume "i + 1 = 0"
    then have "i = - 1" by (simp add: eq_neg_iff_add_eq_0)
    then have "unat i = 2 ^ 64 - 1" by (simp add: unsigned_minus_1_eq_mask mask_eq_exp_minus_1)
    with ul unsigned_less[of n, where 'a = nat] show False by simp
  qed
  then have s: "unat (i + 1) = Suc (unat i)"
    using unatSuc[of i] by (simp add: add.commute)
  with ul show ?thesis by (simp add: word_le_nat_alt)
qed

lemma for_u64_invariant:
  assumes "i \<le> n" and "P i s"
    and step: "\<And>j s. i \<le> j \<Longrightarrow> j < n \<Longrightarrow> P j s \<Longrightarrow> \<exists>s'. body j s = Inr s' \<and> P (j + 1) s'"
  shows "\<exists>s'. for_u64 i n body s = Inr s' \<and> P n s'"
  using assms
proof (induction i n body s rule: for_u64.induct)
  case (1 i n body s)
  show ?case
  proof (cases "i < n")
    case False
    with "1.prems"(1) have "i = n" by simp
    with "1.prems"(2) show ?thesis by (subst for_u64.simps) simp
  next
    case True
    from "1.prems"(3)[OF order_refl True "1.prems"(2)]
    obtain s' where b: "body i s = Inr s'" and p: "P (i + 1) s'" by blast
    from u64_inc[OF True] have le: "i + 1 \<le> n" and "i \<le> i + 1"
      by (simp_all add: word_le_nat_alt)
    have "\<exists>s''. for_u64 (i + 1) n body s' = Inr s'' \<and> P n s''"
    proof (rule "1.IH"[OF True le p])
      fix j s
      assume "i + 1 \<le> j" "j < n" "P j s"
      with \<open>i \<le> i + 1\<close> show "\<exists>s'. body j s = Inr s' \<and> P (j + 1) s'"
        by (intro "1.prems"(3)) auto
    qed
    with True b show ?thesis
      by (subst for_u64.simps) (simp add: bind_err_def)
  qed
qed

text \<open>
  On two identical vectors of counts \<^verbatim>\<open>paired_test\<close> finds the mean difference 0, then
  divides 0 by a standard error that is 0: the statistic and the p-value are NaN.
\<close>

lemma bind_err_simps [simp]: "bind_err (Inr x) f = f x" "bind_err (Inl e) f = Inl e"
  by (simp_all add: bind_err_def)

lemma paired_test_identical:
  assumes xs: "st_comparisons a = Some xs" "st_comparisons b = Some xs"
    and n: "st_trials a = n" "st_trials b = n" "unat n = length xs" "1 \<le> length xs"
    and mem: "8 * length xs < 2 ^ 64" "malloc_ok (8 * length xs)"
  shows "paired_test malloc_ok heap erf a b = Inr (Finite 0, NaN, NaN)"
proof -
  have n8: "unat (n * 8) = 8 * length xs"
    using mem(1) n(3) by (simp add: unat_word_ariths(2) mult.commute)
  define d0 where "d0 = map heap [0 ..< length xs]"
  define P1 where "P1 = (\<lambda>(j :: u64) (s :: double list option \<times> double).
      snd s = Finite 0 \<and>
      (\<exists>ds. fst s = Some ds \<and> length ds = length xs \<and> (\<forall>k < unat j. ds ! k = Finite 0)))"
  have "\<exists>s'. paired_diffs_for (Some xs) (Some xs) n (Some d0) = Inr s' \<and> P1 n s'"
    unfolding paired_diffs_for_def
  proof (rule for_u64_invariant)
    show "0 \<le> n" by simp
    show "P1 0 (Some d0, lit 0)" by (simp add: P1_def d0_def)
    fix j :: u64 and s :: "double list option \<times> double"
    assume j: "j < n" and p: "P1 j s"
    from p obtain ds where s: "s = (Some ds, Finite 0)" and len: "length ds = length xs"
      and z: "\<forall>k < unat j. ds ! k = Finite 0"
      by (cases s) (auto simp: P1_def)
    from j n(3) have jl: "unat j < length xs" by (simp add: word_less_nat_alt)
    from u64_inc[OF j] have suc: "unat (j + 1) = Suc (unat j)" by simp
    have "(case s of (buf, sum_diff) \<Rightarrow>
            bind_err (read_at (Some xs) j) (\<lambda>x.
            bind_err (read_at (Some xs) j) (\<lambda>y.
            bind_err (write_at buf j (fsub (of_u64 x) (of_u64 y))) (\<lambda>buf.
            bind_err (read_at buf j) (\<lambda>d. Inr (buf, fadd sum_diff d))))))
          = Inr (Some (ds[unat j := Finite 0]), Finite 0)"
      using jl len by (simp add: s read_at_def write_at_def)
    moreover have "P1 (j + 1) (Some (ds[unat j := Finite 0]), Finite 0)"
      using z len jl by (auto simp: P1_def suc less_Suc_eq nth_list_update)
    ultimately show "\<exists>s'. (case s of (buf, sum_diff) \<Rightarrow>
            bind_err (read_at (Some xs) j) (\<lambda>x.
            bind_err (read_at (Some xs) j) (\<lambda>y.
            bind_err (write_at buf j (fsub (of_u64 x) (of_u64 y))) (\<lambda>buf.
            bind_err (read_at buf j) (\<lambda>d. Inr (buf, fadd sum_diff d)))))) = Inr s' \<and> P1 (j + 1) s'"
      by blast
  qed
  then obtain ds where l1: "paired_diffs_for (Some xs) (Some xs) n (Some d0) = Inr (Some ds, Finite 0)"
    and len: "length ds = length xs" and z: "\<forall>k < unat n. ds ! k = Finite 0"
    by (auto simp: P1_def)
  from n(3,4) have "n \<noteq> 0" by auto
  from of_u64_positive[OF this] obtain r where r: "of_u64 n = Finite r" "0 < r" by blast
  then have mean: "fdiv (Finite 0) (of_u64 n) = Finite 0" by (simp add: fdiv_zero_positive)
  have "\<exists>s'. paired_var_for (Some ds) n (Finite 0) = Inr s' \<and> s' = Finite 0"
    unfolding paired_var_for_def
  proof (rule for_u64_invariant[where P = "\<lambda>j s. s = Finite 0"])
    show "0 \<le> n" by simp
    show "lit 0 = Finite 0" by simp
    fix j :: u64 and s :: double
    assume j: "j < n" and p: "s = Finite 0"
    from j have jl: "unat j < unat n" by (simp add: word_less_nat_alt)
    with z len n(3)
    show "\<exists>s'. bind_err (read_at (Some ds) j)
             (\<lambda>di. let d = fsub di (Finite 0) in Inr (fadd s (fmul d d))) = Inr s' \<and> s' = Finite 0"
      by (simp add: read_at_def p)
  qed
  then have l2: "paired_var_for (Some ds) n (Finite 0) = Inr (Finite 0)" by simp
  define se where "se = fdiv (fsqrt (fdiv (Finite 0) (of_u64 (n - 1)))) (fsqrt (of_u64 n))"
  have "fsqrt (fdiv (Finite 0) (of_u64 (n - 1))) = NaN \<or> fsqrt (fdiv (Finite 0) (of_u64 (n - 1))) = Finite 0"
    using fdiv_zero_cases[of "of_u64 (n - 1)"] by auto
  then have "se = NaN \<or> se = Finite 0"
    unfolding se_def using fdiv_zero_cases[of "fsqrt (of_u64 n)"] by auto
  then have t: "fdiv (Finite 0) se = NaN" by auto
  show ?thesis
    unfolding paired_test_def
    by (simp add: Let_def n(1,2) xs n8 mem(2) d0_def[symmetric] l1 mean l2 se_def[symmetric] t)
qed








text \<open>
  C8 fails on the code: on two identical vectors \<open>[5, 5]\<close> of per-trial counts
  \<^verbatim>\<open>paired_test\<close> stores \<open>mean_diff = 0\<close>, but its statistic is \<open>0.0 / 0.0\<close> and \<open>p_approx\<close> is
  NaN, not 1.0.
\<close>

theorem paired_test_two_fives:
  "paired_test (\<lambda>size. True) heap erf two_fives two_fives = Inr (Finite 0, NaN, NaN)"
  by (rule paired_test_identical[where xs = "[5, 5]" and n = 2]) (simp_all add: two_fives_def)

end
